theory Spec2Isabelle
  imports Main "HOL-Library.AList"
begin

section \<open>File integrity monitor and backup rotation (FIM.py)\<close>

text \<open>
  A shallow embedding of \<^verbatim>\<open>src/FIM.py\<close>. Python \<^verbatim>\<open>str\<close> values are modelled as
  \<^typ>\<open>string\<close>; a \<^typ>\<open>char\<close> stands for a code point below 256. Python dictionaries
  keep insertion order, which the logging order of the program depends on, so they are
  association lists with distinct keys. Exceptions are values of \<open>py_error\<close>; a function
  that can raise returns \<open>py_error + 'a\<close>.
\<close>

subsection \<open>Exceptions\<close>

datatype py_error =
    FileNotFoundError
  | PermissionError
  | IsADirectoryError
  | NotADirectoryError
  | OSError
  | KeyError

subsection \<open>String operations of the Python library used by the program\<close>

text \<open>\<^verbatim>\<open>s.endswith(suf)\<close> and \<^verbatim>\<open>s.startswith(pre)\<close>.\<close>

definition endswith :: "string \<Rightarrow> string \<Rightarrow> bool" where
  "endswith s suf \<longleftrightarrow> length suf \<le> length s \<and> drop (length s - length suf) s = suf"

definition startswith :: "string \<Rightarrow> string \<Rightarrow> bool" where
  "startswith s pre \<longleftrightarrow> take (length pre) s = pre"

subsection \<open>check_file_type\<close>

text \<open>
  \<^verbatim>\<open>
  if filename.endswith('.xlsx'): return 'excel'
  elif filename.endswith(('.jpg', '.jpeg', '.png', '.gif')): return 'image'
  elif filename.endswith('.docx'): return 'word'
  elif filename.endswith('.pdf'): return 'pdf'
  elif filename.endswith('.pptx'): return 'pptx'
  return None
  \<close>
\<close>

definition check_file_type :: "string \<Rightarrow> string option" where
  "check_file_type filename =
     (if endswith filename ''.xlsx'' then Some ''excel''
      else if endswith filename ''.jpg'' \<or> endswith filename ''.jpeg''
              \<or> endswith filename ''.png'' \<or> endswith filename ''.gif'' then Some ''image''
      else if endswith filename ''.docx'' then Some ''word''
      else if endswith filename ''.pdf'' then Some ''pdf''
      else if endswith filename ''.pptx'' then Some ''pptx''
      else None)"

text \<open>The suffixes the classifier recognises.\<close>

definition known_suffixes :: "string list" where
  "known_suffixes =
     [''.xlsx'', ''.jpg'', ''.jpeg'', ''.png'', ''.gif'', ''.docx'', ''.pdf'', ''.pptx'']"

subsection \<open>delete_old_backups\<close>

text \<open>
  The backup location is a list of its immediate children in listing order, each with its
  name and the outcome of \<^verbatim>\<open>os.path.getctime\<close> on it: its creation time, or the error that
  \<^verbatim>\<open>stat\<close> raises (a dangling link, a child removed after the glob).
  \<^verbatim>\<open>glob.glob(os.path.join(loc, "*"))\<close> returns the children whose names do not begin with a
  dot. \<^verbatim>\<open>list.sort\<close> first calls the key function on every element, in order, and raises
  the first error (\<open>getctimes\<close>); it is stable, as \<^const>\<open>sort_key\<close> is. \<^verbatim>\<open>shutil.rmtree\<close> can
  fail; \<open>rmtree\<close> gives its outcome for a name (\<^const>\<open>None\<close>: the entry is removed).
  \<^verbatim>\<open>
  backups = glob.glob(os.path.join(backup_location, "*"))
  backups.sort(key=os.path.getctime)
  if len(backups) > 2:
      oldest_backup = backups[0]
      shutil.rmtree(oldest_backup)
  \<close>
\<close>

type_synonym 't backup_dir = "(string \<times> (py_error + 't)) list"

definition glob_star :: "'t backup_dir \<Rightarrow> 't backup_dir" where
  "glob_star entries = filter (\<lambda>e. \<not> startswith (fst e) ''.'') entries"

fun getctimes :: "'t backup_dir \<Rightarrow> py_error + (string \<times> 't) list" where
  "getctimes [] = Inr []"
| "getctimes (entry # entries) =
     (case snd entry of
        Inl e \<Rightarrow> Inl e
      | Inr t \<Rightarrow>
          (case getctimes entries of
             Inl e \<Rightarrow> Inl e
           | Inr keyed \<Rightarrow> Inr ((fst entry, t) # keyed)))"

definition delete_old_backups ::
  "(string \<Rightarrow> py_error option) \<Rightarrow> ('t::linorder) backup_dir \<Rightarrow> py_error + 't backup_dir" where
  "delete_old_backups rmtree backup_location =
     (case getctimes (glob_star backup_location) of
        Inl e \<Rightarrow> Inl e
      | Inr keyed \<Rightarrow>
          (let backups = sort_key snd keyed in
           if length backups > 2 then
             (case backups of
                [] \<Rightarrow> Inr backup_location
              | oldest_backup # _ \<Rightarrow>
                  (case rmtree (fst oldest_backup) of
                     Some e \<Rightarrow> Inl e
                   | None \<Rightarrow>
                       Inr (filter (\<lambda>e. fst e \<noteq> fst oldest_backup) backup_location)))
           else Inr backup_location))"

text \<open>The names of the \<open>k\<close> newest of the entries with their creation times.\<close>

definition newest :: "nat \<Rightarrow> (string \<times> ('t::linorder)) list \<Rightarrow> string set" where
  "newest k keyed =
     (let backups = sort_key snd keyed in
      fst ` set (drop (length backups - k) backups))"

subsection \<open>Reading and writing the ledger baseline.txt\<close>

text \<open>
  The ledger is a text file. \<^verbatim>\<open>for line in f\<close> yields its lines, each with its line end;
  in text mode Python reads \<^verbatim>\<open>\r\n\<close> and a lone \<^verbatim>\<open>\r\<close> as \<^verbatim>\<open>\n\<close>. The flag of \<open>readlines\<close>
  says that the previous character was \<^verbatim>\<open>\r\<close>, so that a \<^verbatim>\<open>\n\<close> right after it belongs to
  the same line end.
\<close>

definition LF :: char where
  "LF = CHR 0x0A"

definition CR :: char where
  "CR = CHR 0x0D"

fun readlines :: "string \<Rightarrow> bool \<Rightarrow> string \<Rightarrow> string list" where
  "readlines cur after_cr [] = (if cur = [] then [] else [cur])"
| "readlines cur after_cr (c # cs) =
     (if c = LF \<and> after_cr then readlines cur False cs
      else if c = LF then (cur @ [LF]) # readlines [] False cs
      else if c = CR then (cur @ [LF]) # readlines [] True cs
      else readlines (cur @ [c]) False cs)"

definition file_lines :: "string \<Rightarrow> string list" where
  "file_lines content = readlines [] False content"

text \<open>
  \<^verbatim>\<open>str.isspace\<close> on the code points below 256, and \<^verbatim>\<open>str.strip()\<close>, which removes the
  white space at both ends.
\<close>

definition isspace :: "char \<Rightarrow> bool" where
  "isspace c \<longleftrightarrow>
     (let n = (of_char c :: nat)
      in (9 \<le> n \<and> n \<le> 13) \<or> (28 \<le> n \<and> n \<le> 32) \<or> n = 133 \<or> n = 160)"

definition strip :: "string \<Rightarrow> string" where
  "strip s = rev (dropWhile isspace (rev (dropWhile isspace s)))"

text \<open>
  \<^verbatim>\<open>s.split(sep)\<close> for a separator of one character: the result is never empty, and an
  empty string gives one empty field. The first branch of the \<open>case\<close> is never taken.
\<close>

fun split_on :: "char \<Rightarrow> string \<Rightarrow> string list" where
  "split_on sep [] = [[]]"
| "split_on sep (c # cs) =
     (if c = sep then [] # split_on sep cs
      else (case split_on sep cs of
              [] \<Rightarrow> [[c]]
            | p # ps \<Rightarrow> (c # p) # ps))"

text \<open>
  The loop body shared by every reader of the ledger:
  \<^verbatim>\<open>
  parts = line.strip().split("|")
  if len(parts) >= 3:
      path = parts[0]; file_hash = parts[1]; event_id = parts[2]
  \<close>
  \<open>parse_line\<close> gives the three fields, or \<^const>\<open>None\<close> for a line that the loop passes over.
\<close>

definition parse_line :: "string \<Rightarrow> (string \<times> string \<times> string) option" where
  "parse_line line =
     (let parts = split_on (CHR ''|'') (strip line)
      in if length parts \<ge> 3 then Some (parts ! 0, parts ! 1, parts ! 2) else None)"

text \<open>
  The value stored for a path: the dictionary \<^verbatim>\<open>{"hash": ..., "event_id": ...}\<close> of the
  handlers (the key is \<^verbatim>\<open>"checksum"\<close> in \<^verbatim>\<open>process_excel_changes\<close>), and the dictionary
  \<^verbatim>\<open>{"hash": ..., "event_id": ..., "path": ...}\<close> of \<^verbatim>\<open>monitor_files\<close>.
\<close>

record baseline_entry =
  e_hash :: string
  e_event_id :: string

record file_info = baseline_entry +
  e_path :: string

type_synonym baseline_data = "(string \<times> baseline_entry) list"

text \<open>
  The load loop of \<^verbatim>\<open>process_word_changes\<close>, which binds the third field to
  \<^verbatim>\<open>file_event_id\<close>:
  \<^verbatim>\<open>baseline_data[path] = {"hash": file_hash, "event_id": file_event_id}\<close>
\<close>

definition load_baseline :: "string \<Rightarrow> baseline_data" where
  "load_baseline content =
     fold (\<lambda>line d. case parse_line line of
                       None \<Rightarrow> d
                     | Some (p, h, e) \<Rightarrow> AList.update p \<lparr>e_hash = h, e_event_id = e\<rparr> d)
          (file_lines content) []"

text \<open>
  The load loop of the other handlers binds the third field to \<^verbatim>\<open>event_id\<close>, the name of
  the handler's own parameter, so the loop threads that variable too:
  \<^verbatim>\<open>
  event_id = parts[2]
  baseline_data[path] = {"hash": file_hash, "event_id": event_id}
  \<close>
\<close>

definition load_baseline_rebinding :: "string \<Rightarrow> string \<Rightarrow> baseline_data \<times> string" where
  "load_baseline_rebinding content event_id =
     fold (\<lambda>line (d, eid). case parse_line line of
                              None \<Rightarrow> (d, eid)
                            | Some (p, h, e) \<Rightarrow> (AList.update p \<lparr>e_hash = h, e_event_id = e\<rparr> d, e))
          (file_lines content) ([], event_id)"

text \<open>
  The save loop:
  \<^verbatim>\<open>
  for path, info in baseline_data.items():
      f.write(f"{path}|{info['hash']}|{info['event_id']}\n")
  \<close>
\<close>

definition format_line :: "string \<Rightarrow> string \<Rightarrow> string \<Rightarrow> string" where
  "format_line p h e = p @ ''|'' @ h @ ''|'' @ e @ [LF]"

definition save_baseline :: "baseline_data \<Rightarrow> string" where
  "save_baseline d = concat (map (\<lambda>(p, i). format_line p (e_hash i) (e_event_id i)) d)"

subsection \<open>The environment\<close>

text \<open>
  \<^verbatim>\<open>hashlib\<close> is a library; its two digests are parameters of the model.
\<close>

type_synonym bytes = "char list"

record hashlib =
  sha256_hexdigest :: "bytes \<Rightarrow> string"
  sha512_hexdigest :: "bytes \<Rightarrow> string"

text \<open>A directory: its name, the names of its files, its subdirectories.\<close>

datatype dir = Dir (dname: string) (dfiles: "string list") (subdirs: "dir list")

text \<open>
  What the program observes of the file system during one monitoring cycle. The
  observations are independent of each other, so that a file can be listed by the walk and
  be gone when it is opened, or be opened by the probe and fail to be read:
  \<^item> \<open>tree\<close>: the directory tree below a target folder (\<^const>\<open>None\<close>: no such directory,
    \<^verbatim>\<open>os.walk\<close> then yields nothing);
  \<^item> \<open>open_rb\<close>: the outcome of the probe \<^verbatim>\<open>open(full_path, "rb")\<close> (\<^const>\<open>None\<close>: it opens);
  \<^item> \<open>read_file\<close>: the outcome of opening and reading the file for a digest;
  \<^item> \<open>path_exists\<close>: \<^verbatim>\<open>os.path.exists\<close>;
  \<^item> \<open>open_w\<close>: the outcome of \<^verbatim>\<open>open("baseline.txt", "w")\<close> (\<^const>\<open>None\<close>: it opens, and the
    file is then written whole);
  \<^item> \<open>uuid4\<close>: the identifiers that \<^verbatim>\<open>str(uuid.uuid4())\<close> returns, in the order of the calls.
\<close>

record world =
  tree :: "string \<Rightarrow> dir option"
  open_rb :: "string \<Rightarrow> py_error option"
  read_file :: "string \<Rightarrow> py_error + bytes"
  path_exists :: "string \<Rightarrow> bool"
  open_w :: "py_error option"
  uuid4 :: "nat \<Rightarrow> string"

text \<open>
  \<^verbatim>\<open>
  with open(filepath, "rb") as f:
      data = f.read()
      return hashlib.sha512(data).hexdigest()     # calculate_file_hash
      return hashlib.sha256(data).hexdigest()     # calculate_file_checksum
  \<close>
\<close>

definition calculate_file_hash :: "hashlib \<Rightarrow> world \<Rightarrow> string \<Rightarrow> py_error + string" where
  "calculate_file_hash H w filepath =
     (case read_file w filepath of
        Inl e \<Rightarrow> Inl e
      | Inr data \<Rightarrow> Inr (sha512_hexdigest H data))"

definition calculate_file_checksum :: "hashlib \<Rightarrow> world \<Rightarrow> string \<Rightarrow> py_error + string" where
  "calculate_file_checksum H w filepath =
     (case read_file w filepath of
        Inl e \<Rightarrow> Inl e
      | Inr data \<Rightarrow> Inr (sha256_hexdigest H data))"

subsection \<open>The log\<close>

text \<open>
  A record of the logger. \<open>LogInfo code p action\<close> is the message
  \<^verbatim>\<open>"{code} File at path: {p}, Action: {action}"\<close>; \<open>LogInfoId code eid p action\<close> is the
  form of \<^verbatim>\<open>process_word_changes\<close>, \<^verbatim>\<open>"{code} File at path: {eid} {p}, Action: {action}"\<close>;
  \<open>LogWarning eid p\<close> is its warning about an untracked deletion; \<open>LogError p e\<close> is
  \<^verbatim>\<open>"Error processing changes in {p}: {e}"\<close>. Output of \<^verbatim>\<open>print\<close> is not part of the log.
\<close>

datatype log_entry =
    LogInfo nat string string
  | LogInfoId nat string string string
  | LogWarning string string
  | LogError string py_error

fun entry_path :: "log_entry \<Rightarrow> string" where
  "entry_path (LogInfo c p a) = p"
| "entry_path (LogInfoId c e p a) = p"
| "entry_path (LogWarning e p) = p"
| "entry_path (LogError p e) = p"

fun entry_code :: "log_entry \<Rightarrow> nat option" where
  "entry_code (LogInfo c p a) = Some c"
| "entry_code (LogInfoId c e p a) = Some c"
| "entry_code (LogWarning e p) = None"
| "entry_code (LogError p e) = None"

text \<open>The two files the handlers write: the ledger (\<^const>\<open>None\<close>: no such file) and the log.\<close>

record disk =
  baseline_txt :: "string option"
  log :: "log_entry list"

definition logger :: "log_entry \<Rightarrow> disk \<Rightarrow> disk" where
  "logger e s = s\<lparr>log := log s @ [e]\<rparr>"

subsection \<open>The change handlers\<close>

text \<open>
  \<^verbatim>\<open>process_file_changes\<close>, \<^verbatim>\<open>process_image_changes\<close>, \<^verbatim>\<open>process_excel_changes\<close>,
  \<^verbatim>\<open>process_pdf_changes\<close> and \<^verbatim>\<open>process_text_changes\<close> have one body, up to the digest they
  call and the wording of three messages:
  \<^verbatim>\<open>
  try:
      baseline_data = {}
      with open("baseline.txt", "r") as f:
          for line in f: ...                      # load_baseline_rebinding
      current_hash = calculate_file_hash(filename)
      if filename not in baseline_data:
          logger.info(f"101 File at path: {filename}, Action: New file detected.")
      elif current_hash != baseline_data[filename]["hash"]:
          logger.info(f"103 File at path: {filename}, Action: File changed.")
      else:
          logger.info(f"100 File at path: {filename}, Action: No change in file.")
      baseline_data[filename] = {"hash": current_hash, "event_id": event_id}
      with open("baseline.txt", "w") as f: ...    # save_baseline
  except Exception as e:
      logger.error(f"Error processing changes in {filename}: {e}")
  \<close>
\<close>

definition process_changes ::
  "(string \<Rightarrow> py_error + string) \<Rightarrow> string \<Rightarrow> string \<Rightarrow> string \<Rightarrow>
   world \<Rightarrow> string \<Rightarrow> string \<Rightarrow> disk \<Rightarrow> disk" where
  "process_changes digest msg_new msg_changed msg_same w filename event_id s =
     (case baseline_txt s of
        None \<Rightarrow> logger (LogError filename FileNotFoundError) s
      | Some content \<Rightarrow>
          (case load_baseline_rebinding content event_id of
             (baseline_data, event_id') \<Rightarrow>
               (case digest filename of
                  Inl e \<Rightarrow> logger (LogError filename e) s
                | Inr current_hash \<Rightarrow>
                    (let s1 = logger
                           (case map_of baseline_data filename of
                              None \<Rightarrow> LogInfo 101 filename msg_new
                            | Some old \<Rightarrow>
                                if current_hash \<noteq> e_hash old
                                then LogInfo 103 filename msg_changed
                                else LogInfo 100 filename msg_same) s;
                         baseline_data' =
                           AList.update filename
                             \<lparr>e_hash = current_hash, e_event_id = event_id'\<rparr> baseline_data
                     in case open_w w of
                          Some e \<Rightarrow> logger (LogError filename e) s1
                        | None \<Rightarrow> s1\<lparr>baseline_txt := Some (save_baseline baseline_data')\<rparr>))))"

definition process_file_changes :: "hashlib \<Rightarrow> world \<Rightarrow> string \<Rightarrow> string \<Rightarrow> disk \<Rightarrow> disk" where
  "process_file_changes H w =
     process_changes (calculate_file_hash H w)
       ''New file detected.'' ''File changed.'' ''No change in file.'' w"

definition process_image_changes :: "hashlib \<Rightarrow> world \<Rightarrow> string \<Rightarrow> string \<Rightarrow> disk \<Rightarrow> disk" where
  "process_image_changes H w =
     process_changes (calculate_file_hash H w)
       ''New image detected.'' ''Image changed.'' ''No change in image.'' w"

definition process_excel_changes :: "hashlib \<Rightarrow> world \<Rightarrow> string \<Rightarrow> string \<Rightarrow> disk \<Rightarrow> disk" where
  "process_excel_changes H w =
     process_changes (calculate_file_checksum H w)
       ''New Excel file detected.'' ''Excel file has modified.'' ''No change in Excel file.'' w"

definition process_pdf_changes :: "hashlib \<Rightarrow> world \<Rightarrow> string \<Rightarrow> string \<Rightarrow> disk \<Rightarrow> disk" where
  "process_pdf_changes H w =
     process_changes (calculate_file_hash H w)
       ''New PDF document detected.'' ''PDF document changed.'' ''No change in PDF document.'' w"

definition process_text_changes :: "hashlib \<Rightarrow> world \<Rightarrow> string \<Rightarrow> string \<Rightarrow> disk \<Rightarrow> disk" where
  "process_text_changes H w =
     process_changes (calculate_file_hash H w)
       ''New text file detected.'' ''Text file changed.'' ''No change in text file.'' w"

text \<open>
  \<^verbatim>\<open>process_word_changes\<close> returns at once for a name that starts with \<^verbatim>\<open>~$\<close>, keeps its
  parameter \<^verbatim>\<open>event_id\<close> apart from the loop's \<^verbatim>\<open>file_event_id\<close>, and looks at
  \<^verbatim>\<open>os.path.exists(filename)\<close> before it reads the file; for a file that is gone it logs and
  returns without writing the ledger.
  \<^verbatim>\<open>
  if not filename.startswith('~$') and filename not in baseline_data:   # 101
  elif filename in baseline_data and current_hash != baseline_data[filename]["hash"]:   # 103
  elif filename in baseline_data:   # 100
  \<close>
\<close>

definition process_word_changes :: "hashlib \<Rightarrow> world \<Rightarrow> string \<Rightarrow> string \<Rightarrow> disk \<Rightarrow> disk" where
  "process_word_changes H w filename event_id s =
     (if startswith filename ''~$'' then s
      else
        (case baseline_txt s of
           None \<Rightarrow> logger (LogError filename FileNotFoundError) s
         | Some content \<Rightarrow>
             (let baseline_data = load_baseline content in
              if \<not> path_exists w filename then
                (if map_of baseline_data filename \<noteq> None
                 then logger (LogInfoId 102 event_id filename
                                ''Word document has been deleted.'') s
                 else logger (LogWarning event_id filename) s)
              else
                (case calculate_file_hash H w filename of
                   Inl e \<Rightarrow> logger (LogError filename e) s
                 | Inr current_hash \<Rightarrow>
                     (let s1 =
                            (case map_of baseline_data filename of
                               None \<Rightarrow>
                                 if \<not> startswith filename ''~$''
                                 then logger (LogInfoId 101 event_id filename
                                                ''New Word document detected.'') s
                                 else s
                             | Some old \<Rightarrow>
                                 if current_hash \<noteq> e_hash old
                                 then logger (LogInfo 103 filename ''Word document changed.'') s
                                 else logger (LogInfoId 100 event_id filename
                                                ''No change in Word document.'') s);
                          baseline_data' =
                            AList.update filename
                              \<lparr>e_hash = current_hash, e_event_id = event_id\<rparr> baseline_data
                      in case open_w w of
                           Some e \<Rightarrow> logger (LogError filename e) s1
                         | None \<Rightarrow> s1\<lparr>baseline_txt := Some (save_baseline baseline_data')\<rparr>)))))"

text \<open>
  \<^verbatim>\<open>process_file\<close> dispatches on \<^verbatim>\<open>check_file_type\<close>. No handler raises (each catches
  \<^verbatim>\<open>Exception\<close>), so neither does \<^verbatim>\<open>process_file\<close>.
  \<^verbatim>\<open>
  if file_type == 'excel': process_excel_changes(filename, event_id)
  elif file_type == 'image': process_image_changes(filename, event_id)
  elif file_type == 'word': process_word_changes(filename, event_id)
  elif file_type == 'pdf': process_pdf_changes(filename, event_id)
  elif file_type == 'txt': process_text_changes(filename, event_id)
  else: logger.info(f"103 File at path: {filename}, Action: File has been changed.")
  \<close>
\<close>

definition process_file :: "hashlib \<Rightarrow> world \<Rightarrow> string \<Rightarrow> string \<Rightarrow> disk \<Rightarrow> disk" where
  "process_file H w filename event_id s =
     (let file_type = check_file_type filename in
      if file_type = Some ''excel'' then process_excel_changes H w filename event_id s
      else if file_type = Some ''image'' then process_image_changes H w filename event_id s
      else if file_type = Some ''word'' then process_word_changes H w filename event_id s
      else if file_type = Some ''pdf'' then process_pdf_changes H w filename event_id s
      else if file_type = Some ''txt'' then process_text_changes H w filename event_id s
      else logger (LogInfo 103 filename ''File has been changed.'') s)"

subsection \<open>monitor_files\<close>

text \<open>
  The state of the monitoring loop: the dictionary \<^verbatim>\<open>file_info_dict\<close>, the two files on
  disk, and the number of calls of \<^verbatim>\<open>uuid.uuid4\<close> so far.
\<close>

record mstate =
  file_info_dict :: "(string \<times> file_info) list"
  disk :: disk
  uuid_count :: nat

text \<open>
  The start of \<^verbatim>\<open>monitor_files\<close>: the ledger is loaded once; when it cannot be opened the
  exception is caught and the dictionary stays empty.
  \<^verbatim>\<open>file_info_dict[path] = {"hash": file_hash, "event_id": event_id, "path": path}\<close>
\<close>

definition load_step :: "string \<Rightarrow> (string \<times> file_info) list \<Rightarrow> (string \<times> file_info) list" where
  "load_step line d =
     (case parse_line line of
        None \<Rightarrow> d
      | Some (p, h, e) \<Rightarrow> AList.update p \<lparr>e_hash = h, e_event_id = e, e_path = p\<rparr> d)"

definition load_file_info_dict :: "string option \<Rightarrow> (string \<times> file_info) list" where
  "load_file_info_dict ledger =
     (case ledger of
        None \<Rightarrow> []
      | Some content \<Rightarrow> fold load_step (file_lines content) [])"

definition monitor_init :: "string option \<Rightarrow> mstate" where
  "monitor_init ledger =
     \<lparr>file_info_dict = load_file_info_dict ledger,
      disk = \<lparr>baseline_txt = ledger, log = []\<rparr>,
      uuid_count = 0\<rparr>"

text \<open>
  \<^verbatim>\<open>os.path.join(root, name)\<close> for a name that a directory listing returns (it is not
  absolute), with the separator \<^verbatim>\<open>/\<close>.
\<close>

definition os_path_join :: "string \<Rightarrow> string \<Rightarrow> string" where
  "os_path_join a b = (if a = [] \<or> last a = CHR ''/'' then a @ b else a @ ''/'' @ b)"

definition excluded_dirs :: "string list" where
  "excluded_dirs = [''image files'']"

text \<open>
  \<^verbatim>\<open>os.walk(target_folder)\<close> as the loop consumes it: top-down, and the loop body removes the
  excluded names from \<^verbatim>\<open>dirs\<close> before the walk descends
  (\<^verbatim>\<open>dirs[:] = [d for d in dirs if d not in excluded_dirs]\<close>). Each step is the path of a
  directory with the names of its files.
\<close>

fun walk :: "string \<Rightarrow> dir \<Rightarrow> (string \<times> string list) list" where
  "walk root (Dir n fs subs) =
     (root, fs) #
     concat (map (\<lambda>d. walk (os_path_join root (dname d)) d)
                 (filter (\<lambda>d. dname d \<notin> set excluded_dirs) subs))"

definition os_walk :: "world \<Rightarrow> string \<Rightarrow> (string \<times> string list) list" where
  "os_walk w target_folder =
     (case tree w target_folder of
        None \<Rightarrow> []
      | Some d \<Rightarrow> walk target_folder d)"

text \<open>
  The body of \<^verbatim>\<open>for f in files\<close> for one path. \<^verbatim>\<open>except PermissionError\<close> guards the probe
  only; any other error of the probe, and any error of \<^verbatim>\<open>calculate_file_hash\<close>, leaves the
  function. In the branch for a rename, \<^verbatim>\<open>file_info_dict.pop\<close> raises \<^verbatim>\<open>KeyError\<close> for a key
  that is not there.
\<close>

definition visit_file :: "hashlib \<Rightarrow> world \<Rightarrow> string \<Rightarrow> mstate \<Rightarrow> py_error + mstate" where
  "visit_file H w full_path st =
     (case open_rb w full_path of
        Some e \<Rightarrow> if e = PermissionError then Inr st else Inl e
      | None \<Rightarrow>
          (case map_of (file_info_dict st) full_path of
             None \<Rightarrow>
               (let event_id = uuid4 w (uuid_count st) in
                case calculate_file_hash H w full_path of
                  Inl e \<Rightarrow> Inl e
                | Inr file_hash \<Rightarrow>
                    Inr (st\<lparr>file_info_dict :=
                              AList.update full_path
                                \<lparr>e_hash = file_hash, e_event_id = event_id, e_path = full_path\<rparr>
                                (file_info_dict st),
                            disk := logger (LogInfo 101 full_path ''New file detected.'') (disk st),
                            uuid_count := uuid_count st + 1\<rparr>))
           | Some info \<Rightarrow>
               (case calculate_file_hash H w full_path of
                  Inl e \<Rightarrow> Inl e
                | Inr current_hash \<Rightarrow>
                    if current_hash \<noteq> e_hash info then
                      (let event_id = uuid4 w (uuid_count st) in
                       Inr (st\<lparr>file_info_dict :=
                                 AList.update full_path
                                   (info\<lparr>e_hash := current_hash, e_event_id := event_id\<rparr>)
                                   (file_info_dict st),
                               disk := process_file H w full_path event_id (disk st),
                               uuid_count := uuid_count st + 1\<rparr>))
                    else if full_path \<noteq> e_path info then
                      (case map_of (file_info_dict st) (e_path info) of
                         None \<Rightarrow> Inl KeyError
                       | Some moved \<Rightarrow>
                           Inr (st\<lparr>file_info_dict :=
                                     AList.update full_path (moved\<lparr>e_path := full_path\<rparr>)
                                       (AList.delete (e_path info) (file_info_dict st)),
                                   disk := logger
                                     (LogInfo 104 (e_path info)
                                        (''File has been renamed to '' @ full_path))
                                     (disk st)\<rparr>))
                    else Inr st)))"

fun visit_files :: "hashlib \<Rightarrow> world \<Rightarrow> string \<Rightarrow> string list \<Rightarrow> mstate \<Rightarrow> py_error + mstate" where
  "visit_files H w root [] st = Inr st"
| "visit_files H w root (f # files) st =
     (case visit_file H w (os_path_join root f) st of
        Inl e \<Rightarrow> Inl e
      | Inr st' \<Rightarrow> visit_files H w root files st')"

text \<open>
  The deletion loop, which stands in the body of the loop over the walk, after the loop
  over the files of one directory:
  \<^verbatim>\<open>
  for path in list(file_info_dict.keys()):
      if not os.path.exists(path):
          logger.info(f"102 File at path: {path}, Action: File has been deleted")
          del file_info_dict[path]
  \<close>
\<close>

fun delete_missing :: "world \<Rightarrow> string list \<Rightarrow> mstate \<Rightarrow> mstate" where
  "delete_missing w [] st = st"
| "delete_missing w (p # ps) st =
     delete_missing w ps
       (if \<not> path_exists w p
        then st\<lparr>file_info_dict := AList.delete p (file_info_dict st),
                disk := logger (LogInfo 102 p ''File has been deleted'') (disk st)\<rparr>
        else st)"

definition check_deleted :: "world \<Rightarrow> mstate \<Rightarrow> mstate" where
  "check_deleted w st = delete_missing w (map fst (file_info_dict st)) st"

text \<open>One step of the walk: the files of one directory, then the deletion loop.\<close>

definition walk_step :: "hashlib \<Rightarrow> world \<Rightarrow> string \<times> string list \<Rightarrow> mstate \<Rightarrow> py_error + mstate" where
  "walk_step H w step st =
     (case visit_files H w (fst step) (snd step) st of
        Inl e \<Rightarrow> Inl e
      | Inr st' \<Rightarrow> Inr (check_deleted w st'))"

fun walk_steps :: "hashlib \<Rightarrow> world \<Rightarrow> (string \<times> string list) list \<Rightarrow> mstate \<Rightarrow> py_error + mstate" where
  "walk_steps H w [] st = Inr st"
| "walk_steps H w (step # steps) st =
     (case walk_step H w step st of
        Inl e \<Rightarrow> Inl e
      | Inr st' \<Rightarrow> walk_steps H w steps st')"

text \<open>One pass of \<^verbatim>\<open>while True\<close>: \<^verbatim>\<open>for target_folder in target_folders\<close>.\<close>

fun monitor_cycle :: "hashlib \<Rightarrow> world \<Rightarrow> string list \<Rightarrow> mstate \<Rightarrow> py_error + mstate" where
  "monitor_cycle H w [] st = Inr st"
| "monitor_cycle H w (target_folder # target_folders) st =
     (case walk_steps H w (os_walk w target_folder) st of
        Inl e \<Rightarrow> Inl e
      | Inr st' \<Rightarrow> monitor_cycle H w target_folders st')"

text \<open>
  The loop \<^verbatim>\<open>while True\<close> never returns; it ends only when an exception leaves it. Given what
  the program observes in each of the next cycles, \<open>monitor_loop\<close> runs these cycles and
  gives the exception that ended the loop, or the state after the last of them.
\<close>

fun monitor_loop :: "hashlib \<Rightarrow> world list \<Rightarrow> string list \<Rightarrow> mstate \<Rightarrow> py_error + mstate" where
  "monitor_loop H [] target_folders st = Inr st"
| "monitor_loop H (w # ws) target_folders st =
     (case monitor_cycle H w target_folders st of
        Inl e \<Rightarrow> Inl e
      | Inr st' \<Rightarrow> monitor_loop H ws target_folders st')"

text \<open>The paths that the walk of one cycle lists, in the order of the visits.\<close>

definition step_paths :: "string \<times> string list \<Rightarrow> string list" where
  "step_paths step = map (os_path_join (fst step)) (snd step)"

definition cycle_paths :: "world \<Rightarrow> string list \<Rightarrow> string list" where
  "cycle_paths w target_folders =
     concat (map (\<lambda>t. concat (map step_paths (os_walk w t))) target_folders)"

text \<open>The steps of the walks of one cycle, in order.\<close>

definition cycle_steps :: "world \<Rightarrow> string list \<Rightarrow> (string \<times> string list) list" where
  "cycle_steps w target_folders = concat (map (os_walk w) target_folders)"

text \<open>
  Every record of \<^verbatim>\<open>file_info_dict\<close> carries its own key in its field \<^verbatim>\<open>"path"\<close>.
\<close>

definition keyed_by_path :: "(string \<times> file_info) list \<Rightarrow> bool" where
  "keyed_by_path d \<longleftrightarrow> (\<forall>(k, i) \<in> set d. e_path i = k)"

subsection \<open>Notions used in the statements\<close>

text \<open>
  From the state \<open>st\<close> to the state \<open>st'\<close> the log has grown only by records that are not
  about the path \<open>p\<close>.
\<close>

definition silent_about :: "string \<Rightarrow> mstate \<Rightarrow> mstate \<Rightarrow> bool" where
  "silent_about p st st' \<longleftrightarrow>
     (\<exists>es. log (disk st') = log (disk st) @ es \<and> (\<forall>e \<in> set es. entry_path e \<noteq> p))"

text \<open>
  The dictionary is keyed by path and holds, for the path \<open>p\<close>, the SHA-512 digest of the
  content \<open>c\<close>.
\<close>

definition tracks :: "hashlib \<Rightarrow> bytes \<Rightarrow> string \<Rightarrow> mstate \<Rightarrow> bool" where
  "tracks H c p st \<longleftrightarrow>
     keyed_by_path (file_info_dict st) \<and>
     map_option e_hash (map_of (file_info_dict st) p) = Some (sha512_hexdigest H c)"

text \<open>
  The path has one of the categories for which \<^verbatim>\<open>process_file\<close> calls a handler that
  writes the ledger.
\<close>

definition has_handler :: "string \<Rightarrow> bool" where
  "has_handler p \<longleftrightarrow>
     check_file_type p \<in> {Some ''excel'', Some ''image'', Some ''word'', Some ''pdf''}"

text \<open>
  The ledger on disk was written from a dictionary that holds the digest \<open>h\<close> for the
  path \<open>p\<close>.
\<close>

definition ledger_records :: "disk \<Rightarrow> string \<Rightarrow> string \<Rightarrow> bool" where
  "ledger_records s p h \<longleftrightarrow>
     (\<exists>d. baseline_txt s = Some (save_baseline d) \<and>
          map_option e_hash (map_of d p) = Some h)"


text \<open>
  A field without the separator and without a line end, and a record set that the ledger
  format can hold: the paths are distinct, every field is plain, no path begins and no
  event id ends with white space (which \<^verbatim>\<open>strip\<close> would remove).
\<close>

definition plain_field :: "string \<Rightarrow> bool" where
  "plain_field s \<longleftrightarrow> CHR ''|'' \<notin> set s \<and> LF \<notin> set s \<and> CR \<notin> set s"

definition roundtrip_safe :: "baseline_data \<Rightarrow> bool" where
  "roundtrip_safe R \<longleftrightarrow>
     distinct (map fst R) \<and>
     (\<forall>(p, i) \<in> set R.
        plain_field p \<and> plain_field (e_hash i) \<and> plain_field (e_event_id i) \<and>
        (p = [] \<or> \<not> isspace (hd p)) \<and>
        (e_event_id i = [] \<or> \<not> isspace (last (e_event_id i))))"

text \<open>
  The cycle that starts in the state \<open>st\<close> finds the file \<open>p\<close> modified: the probe opens
  it, and the hash stored for it is not the SHA-512 digest of its content.
\<close>

definition modified :: "hashlib \<Rightarrow> world \<Rightarrow> mstate \<Rightarrow> string \<Rightarrow> bool" where
  "modified H w st p \<longleftrightarrow>
     open_rb w p = None \<and>
     (\<exists>info c. map_of (file_info_dict st) p = Some info \<and> read_file w p = Inr c \<and>
               sha512_hexdigest H c \<noteq> e_hash info)"


subsection \<open>A concrete environment\<close>

text \<open>
  Digests that keep the data and name the algorithm: they are injective, and the two
  algorithms never agree. They stand for \<^verbatim>\<open>hashlib\<close> where a statement is evaluated.
\<close>

definition tagged_digests :: hashlib where
  "tagged_digests =
     \<lparr>sha256_hexdigest = (\<lambda>d. ''sha256:'' @ d), sha512_hexdigest = (\<lambda>d. ''sha512:'' @ d)\<rparr>"

text \<open>
  A target folder \<^verbatim>\<open>/t\<close> with a file \<^verbatim>\<open>a.txt\<close>, an excluded directory \<^verbatim>\<open>image files\<close> and a
  directory \<^verbatim>\<open>sub\<close> with a file \<^verbatim>\<open>b.txt\<close>. Every file opens and reads as \<^verbatim>\<open>hello\<close>; every path
  but \<^verbatim>\<open>/t/gone.txt\<close> exists.
\<close>

definition example_world :: world where
  "example_world =
     \<lparr>tree = (\<lambda>t. if t = ''/t''
                   then Some (Dir ''t'' [''a.txt'']
                                [Dir ''image files'' [''i.png''] [], Dir ''sub'' [''b.txt''] []])
                   else None),
      open_rb = (\<lambda>p. None),
      read_file = (\<lambda>p. Inr ''hello''),
      path_exists = (\<lambda>p. p \<noteq> ''/t/gone.txt''),
      open_w = None,
      uuid4 = (\<lambda>n. ''uuid-'' @ replicate n (CHR ''i''))\<rparr>"

text \<open>The same, but \<^verbatim>\<open>/t/a.txt\<close> is gone when its digest is computed.\<close>

definition vanishing_world :: world where
  "vanishing_world =
     example_world\<lparr>read_file :=
       (\<lambda>p. if p = ''/t/a.txt'' then Inl FileNotFoundError else Inr ''hello'')\<rparr>"

text \<open>The same as \<open>example_world\<close>, but \<^verbatim>\<open>/t/a.txt\<close> is in use: the probe fails.\<close>

definition locked_world :: world where
  "locked_world =
     example_world\<lparr>open_rb :=
       (\<lambda>p. if p = ''/t/a.txt'' then Some PermissionError else None)\<rparr>"

text \<open>A target folder \<^verbatim>\<open>/t\<close> with the one file \<^verbatim>\<open>p.png\<close>, which reads as \<^verbatim>\<open>hello\<close>.\<close>

definition image_world :: world where
  "image_world =
     \<lparr>tree = (\<lambda>t. if t = ''/t'' then Some (Dir ''t'' [''p.png''] []) else None),
      open_rb = (\<lambda>p. None),
      read_file = (\<lambda>p. Inr ''hello''),
      path_exists = (\<lambda>p. True),
      open_w = None,
      uuid4 = (\<lambda>n. ''uuid-'' @ replicate n (CHR ''i''))\<rparr>"

text \<open>
  The state after one cycle over \<^verbatim>\<open>/t\<close> in \<open>example_world\<close>, started from an empty ledger.
\<close>

definition example_state :: mstate where
  "example_state =
     \<lparr>file_info_dict =
        [(''/t/a.txt'',
          \<lparr>e_hash = ''sha512:hello'', e_event_id = ''uuid-'', e_path = ''/t/a.txt''\<rparr>),
         (''/t/sub/b.txt'',
          \<lparr>e_hash = ''sha512:hello'', e_event_id = ''uuid-i'', e_path = ''/t/sub/b.txt''\<rparr>)],
      disk =
        \<lparr>baseline_txt = Some [],
         log =
           [LogInfo 101 ''/t/a.txt'' ''New file detected.'',
            LogInfo 101 ''/t/sub/b.txt'' ''New file detected.'']\<rparr>,
      uuid_count = 2\<rparr>"

section \<open>Properties\<close>

subsection \<open>The classifier\<close>

lemma endswith_last5: "length suf \<le> 5 \<Longrightarrow> endswith (drop (length s - 5) s) suf = endswith s suf"
  by (auto simp: endswith_def)

text \<open>
  C8, as stated, fails: the classifier compares suffixes with \<^verbatim>\<open>str.endswith\<close> and never
  folds case, so a path and the same path with its suffix in upper case are classified
  differently.
\<close>

theorem check_file_type_case_counterexample:
  "check_file_type ''report.xlsx'' \<noteq> check_file_type ''report.XLSX''"
  by (simp add: check_file_type_def endswith_def)

text \<open>
  C8 (amended): the classifier is a function of the last five characters of the path
  alone, compared case-sensitively, and it returns \<^verbatim>\<open>None\<close> (the category "other") exactly for
  the paths that end in none of the recognised lower-case suffixes.
\<close>

theorem check_file_type_suffix:
  "check_file_type p = check_file_type (drop (length p - 5) p) \<and>
   (check_file_type p = None \<longleftrightarrow> (\<forall>suf \<in> set known_suffixes. \<not> endswith p suf))"
proof
  show "check_file_type p = check_file_type (drop (length p - 5) p)"
    unfolding check_file_type_def by (simp add: endswith_last5)
  show "check_file_type p = None \<longleftrightarrow> (\<forall>suf \<in> set known_suffixes. \<not> endswith p suf)"
    unfolding check_file_type_def known_suffixes_def by simp
qed

theorem check_file_type_suffix_witness:
  "check_file_type ''C:/files/notes.TXT'' = check_file_type ''s.TXT'' \<and>
   check_file_type ''C:/files/notes.TXT'' = None"
  using check_file_type_suffix [of "''C:/files/notes.TXT''"]
  by (simp add: known_suffixes_def endswith_def check_file_type_def)

subsection \<open>Retention\<close>

lemma filter_other_names_length:
  "distinct (map fst xs) \<Longrightarrow> e \<in> set xs \<Longrightarrow>
   length (filter (\<lambda>x. fst x \<noteq> fst e) xs) + 1 = length xs"
proof (induction xs)
  case Nil
  then show ?case by simp
next
  case (Cons a xs)
  show ?case
  proof (cases "a = e")
    case True
    with Cons.prems have "fst e \<notin> fst ` set xs" by simp
    then have "\<forall>x \<in> set xs. fst x \<noteq> fst e" by (metis imageI)
    then have "filter (\<lambda>x. fst x \<noteq> fst e) xs = xs" by (simp add: filter_id_conv)
    with True show ?thesis by simp
  next
    case False
    with Cons.prems have "e \<in> set xs" by simp
    moreover from this Cons.prems have "fst a \<noteq> fst e"
      by (metis distinct.simps(2) imageI list.simps(9) set_map)
    ultimately show ?thesis using Cons by simp
  qed
qed

lemma getctimes_names: "getctimes es = Inr keyed \<Longrightarrow> map fst keyed = map fst es"
  by (induction es arbitrary: keyed) (auto split: sum.splits)

lemma getctimes_times: "getctimes es = Inr keyed \<Longrightarrow> map (Inr \<circ> snd) keyed = map snd es"
  by (induction es arbitrary: keyed) (auto split: sum.splits)

lemma getctimes_fails: "getctimes es = Inl err \<Longrightarrow> \<exists>e \<in> set es. snd e = Inl err"
  by (induction es) (auto split: sum.splits)

lemma getctimes_fails_iff:
  "(\<exists>err. getctimes es = Inl err) \<longleftrightarrow> (\<exists>e \<in> set es. \<exists>err. snd e = Inl err)"
  by (induction es) (auto split: sum.splits)

text \<open>
  C1, as stated, fails: one call of \<^verbatim>\<open>delete_old_backups\<close> removes \<^verbatim>\<open>backups[0]\<close> only. With
  five archives of distinct creation times, four remain after one call.
\<close>

theorem delete_old_backups_five_counterexample:
  "delete_old_backups (\<lambda>_. None)
     [(''2024-01-01_00-00-00'', Inr (1::nat)), (''2024-01-01_00-01-00'', Inr 2),
      (''2024-01-01_00-02-00'', Inr 3), (''2024-01-01_00-03-00'', Inr 4),
      (''2024-01-01_00-04-00'', Inr 5)] =
   Inr [(''2024-01-01_00-01-00'', Inr 2), (''2024-01-01_00-02-00'', Inr 3),
        (''2024-01-01_00-03-00'', Inr 4), (''2024-01-01_00-04-00'', Inr 5)]"
  by (simp add: delete_old_backups_def glob_star_def startswith_def)

text \<open>
  C1 (amended): for a backup root whose entries have distinct names, one call of
  \<^verbatim>\<open>delete_old_backups\<close> fails when \<^verbatim>\<open>os.path.getctime\<close> fails on an entry that the glob sees
  (with any number of entries), or when the glob sees more than two entries and
  \<^verbatim>\<open>shutil.rmtree\<close> fails on an oldest one; it fails in no other case. When it returns,
  every entry had a creation time; if the glob saw more than two entries, exactly one
  entry has been removed, one of least creation time, the two newest entries are still
  there, and if there were exactly three entries exactly the two newest remain; if the
  glob saw at most two entries nothing has been removed.
\<close>

theorem delete_old_backups_removes_oldest:
  assumes "distinct (map fst dir)"
  shows "case delete_old_backups rmtree dir of
           Inl err \<Rightarrow>
             (\<exists>e \<in> set (glob_star dir). snd e = Inl err) \<or>
             (\<exists>keyed. getctimes (glob_star dir) = Inr keyed \<and> length keyed > 2 \<and>
                (\<exists>e \<in> set keyed. (\<forall>e' \<in> set keyed. snd e \<le> snd e') \<and>
                                 rmtree (fst e) = Some err))
         | Inr dir' \<Rightarrow>
             (\<forall>e \<in> set (glob_star dir). \<exists>t. snd e = Inr t) \<and>
             (\<exists>keyed. getctimes (glob_star dir) = Inr keyed \<and>
                (if length keyed > 2
                 then (\<exists>e \<in> set keyed.
                         (\<forall>e' \<in> set keyed. snd e \<le> snd e') \<and>
                         rmtree (fst e) = None \<and>
                         dir' = filter (\<lambda>x. fst x \<noteq> fst e) dir \<and>
                         length dir' + 1 = length dir) \<and>
                      newest 2 keyed \<subseteq> fst ` set (glob_star dir') \<and>
                      (length keyed = 3 \<longrightarrow> fst ` set (glob_star dir') = newest 2 keyed)
                 else dir' = dir))"
proof (cases "getctimes (glob_star dir)")
  case (Inl err)
  then have "delete_old_backups rmtree dir = Inl err" by (simp add: delete_old_backups_def)
  with getctimes_fails[OF Inl] show ?thesis by simp
next
  case (Inr keyed)
  have ok: "\<forall>e \<in> set (glob_star dir). \<exists>t. snd e = Inr t"
  proof (rule ccontr)
    assume "\<not> ?thesis"
    then have "\<exists>e \<in> set (glob_star dir). \<exists>err. snd e = Inl err"
      by (metis sum.exhaust)
    with getctimes_fails_iff[of "glob_star dir"] Inr show False by simp
  qed
  have names: "map fst keyed = map fst (glob_star dir)" using Inr by (rule getctimes_names)
  show ?thesis
  proof (cases "length keyed > 2")
    case False
    then show ?thesis using Inr ok by (simp add: delete_old_backups_def)
  next
    case True
    define backups where "backups = sort_key snd keyed"
    have lb: "length backups > 2" using True by (simp add: backups_def)
    then obtain e rest where br: "backups = e # rest" by (cases backups) auto
    have setb: "set backups = set keyed" by (simp add: backups_def)
    have sorted: "sorted (map snd backups)" by (simp add: backups_def)
    have e_in: "e \<in> set keyed" using setb br by auto
    have e_min: "\<forall>e' \<in> set keyed. snd e \<le> snd e'" using sorted setb br by auto
    have dist_g: "distinct (map fst (glob_star dir))"
      using assms by (simp add: glob_star_def distinct_map_filter)
    have dist_k: "distinct (map fst keyed)" using dist_g names by simp
    have dist_b: "distinct (map fst backups)"
    proof -
      from dist_k have "distinct keyed" "inj_on fst (set keyed)" by (simp_all add: distinct_map)
      then show ?thesis using setb by (simp add: distinct_map backups_def)
    qed
    have fresh: "fst e \<notin> fst ` set rest" using dist_b br by simp
    have "fst ` set keyed = insert (fst e) (fst ` set rest)"
      using setb br by (metis image_insert list.simps(15))
    with fresh have rest_names: "fst ` set rest = fst ` set keyed - {fst e}"
      by simp
    have "fst e \<in> fst ` set (glob_star dir)"
      using e_in names by (metis image_eqI set_map)
    then obtain d where d_in: "d \<in> set (glob_star dir)" and d_name: "fst d = fst e" by auto
    have d_dir: "d \<in> set dir" using d_in by (simp add: glob_star_def)
    show ?thesis
    proof (cases "rmtree (fst e)")
      case (Some err)
      have "delete_old_backups rmtree dir = Inl err"
        using lb br Some Inr by (simp add: delete_old_backups_def backups_def[symmetric] Let_def)
      then show ?thesis using True e_in e_min Some Inr by auto
    next
      case None
      define dir' where "dir' = filter (\<lambda>x. fst x \<noteq> fst e) dir"
      have res: "delete_old_backups rmtree dir = Inr dir'"
        using lb br None Inr
        by (simp add: delete_old_backups_def backups_def[symmetric] Let_def dir'_def)
      have gl: "glob_star dir' = filter (\<lambda>x. fst x \<noteq> fst e) (glob_star dir)"
        by (auto simp: glob_star_def dir'_def intro: filter_cong)
      have set_gl: "fst ` set (glob_star dir') = fst ` set rest"
      proof -
        have "fst ` set (glob_star dir') = fst ` set (glob_star dir) - {fst e}"
          unfolding gl by auto
        also have "fst ` set (glob_star dir) = fst ` set keyed"
          using names by (metis set_map)
        finally show ?thesis using rest_names by simp
      qed
      have "length (filter (\<lambda>x. fst x \<noteq> fst d) dir) + 1 = length dir"
        using assms d_dir by (rule filter_other_names_length)
      then have l: "length dir' + 1 = length dir" by (simp add: dir'_def d_name)
      have nw: "newest 2 keyed = fst ` set (drop (length backups - 2) backups)"
        by (simp add: newest_def backups_def Let_def)
      have "length backups - 2 \<ge> 1" using lb by simp
      then have "set (drop (length backups - 2) backups) \<subseteq> set (drop 1 backups)"
        by (rule set_drop_subset_set_drop)
      then have sub: "newest 2 keyed \<subseteq> fst ` set (glob_star dir')"
        using br by (auto simp: nw set_gl)
      have lk: "length backups = length keyed" by (simp add: backups_def)
      have three: "length keyed = 3 \<longrightarrow> fst ` set (glob_star dir') = newest 2 keyed"
        using br lk by (auto simp: nw set_gl)
      have "\<exists>e \<in> set keyed. (\<forall>e' \<in> set keyed. snd e \<le> snd e') \<and>
              rmtree (fst e) = None \<and>
              dir' = filter (\<lambda>x. fst x \<noteq> fst e) dir \<and> length dir' + 1 = length dir"
        using e_in e_min l None by (auto simp: dir'_def)
      then show ?thesis using True ok sub three Inr by (simp add: res)
    qed
  qed
qed

theorem delete_old_backups_removes_oldest_witness:
  "distinct (map fst [(''2024-01-01_00-02-00'', Inr (3::nat)), (''2024-01-01_00-00-00'', Inr 1),
                      (''2024-01-01_00-01-00'', Inr 2)]) \<and>
   delete_old_backups (\<lambda>_. None)
     [(''2024-01-01_00-02-00'', Inr (3::nat)), (''2024-01-01_00-00-00'', Inr 1),
      (''2024-01-01_00-01-00'', Inr 2)] =
   Inr [(''2024-01-01_00-02-00'', Inr 3), (''2024-01-01_00-01-00'', Inr 2)] \<and>
   newest 2 [(''2024-01-01_00-02-00'', 3::nat), (''2024-01-01_00-00-00'', 1),
             (''2024-01-01_00-01-00'', 2)] =
   {''2024-01-01_00-01-00'', ''2024-01-01_00-02-00''} \<and>
   delete_old_backups (\<lambda>_. None)
     [(''2024-01-01_00-02-00'', Inr (3::nat)), (''dangling'', Inl FileNotFoundError)] =
   Inl FileNotFoundError"
  using delete_old_backups_removes_oldest
    [of "[(''2024-01-01_00-02-00'', Inr (3::nat)), (''2024-01-01_00-00-00'', Inr 1),
          (''2024-01-01_00-01-00'', Inr 2)]" "\<lambda>_. None"]
  by (simp add: delete_old_backups_def glob_star_def startswith_def newest_def)

subsection \<open>Invariants of the monitoring cycle\<close>

lemma silent_about_refl: "silent_about p st st"
  by (simp add: silent_about_def)

lemma silent_about_trans:
  "silent_about p st st' \<Longrightarrow> silent_about p st' st'' \<Longrightarrow> silent_about p st st''"
  unfolding silent_about_def by (metis append.assoc UnE set_append)

lemma process_changes_log:
  "\<exists>es. log (process_changes dg a b c w f eid s) = log s @ es \<and> (\<forall>e \<in> set es. entry_path e = f)"
  by (auto simp: process_changes_def logger_def Let_def split: option.splits sum.splits prod.splits)

lemma process_word_changes_log:
  "\<exists>es. log (process_word_changes H w f eid s) = log s @ es \<and> (\<forall>e \<in> set es. entry_path e = f)"
  by (auto simp: process_word_changes_def logger_def Let_def split: option.splits sum.splits)

lemma process_file_log:
  "\<exists>es. log (process_file H w f eid s) = log s @ es \<and> (\<forall>e \<in> set es. entry_path e = f)"
  unfolding process_file_def Let_def process_excel_changes_def process_image_changes_def
    process_pdf_changes_def process_text_changes_def
  using process_changes_log process_word_changes_log
  by (auto simp: logger_def)

lemma keyed_by_path_lookup:
  "keyed_by_path d \<Longrightarrow> map_of d k = Some i \<Longrightarrow> e_path i = k"
  by (auto simp: keyed_by_path_def dest: map_of_SomeD)

lemma set_update_subset: "set (AList.update k v al) \<subseteq> insert (k, v) (set al)"
  by (induction al) auto

lemma keyed_by_path_update:
  "keyed_by_path d \<Longrightarrow> e_path i = k \<Longrightarrow> keyed_by_path (AList.update k i d)"
  using set_update_subset[of k i d] by (auto simp: keyed_by_path_def)

lemma keyed_by_path_delete:
  "keyed_by_path d \<Longrightarrow> keyed_by_path (AList.delete k d)"
  by (auto simp: keyed_by_path_def AList.delete_eq)

lemma visit_file_keyed:
  assumes "keyed_by_path (file_info_dict st)" "visit_file H w q st = Inr st'"
  shows "keyed_by_path (file_info_dict st')"
proof -
  have kp: "\<And>i. map_of (file_info_dict st) q = Some i \<Longrightarrow> e_path i = q"
    using assms(1) by (rule keyed_by_path_lookup)
  show ?thesis
    using assms kp
    by (auto simp: visit_file_def Let_def calculate_file_hash_def
             intro!: keyed_by_path_update
             split: option.splits sum.splits if_splits)
qed

lemma visit_file_establish:
  assumes "keyed_by_path (file_info_dict st)" "open_rb w p = None" "read_file w p = Inr c"
    and "visit_file H w p st = Inr st'"
  shows "tracks H c p st'"
proof -
  have kp: "\<And>i. map_of (file_info_dict st) p = Some i \<Longrightarrow> e_path i = p"
    using assms(1) by (rule keyed_by_path_lookup)
  have "keyed_by_path (file_info_dict st')"
    using assms(1,4) by (rule visit_file_keyed)
  moreover have "map_option e_hash (map_of (file_info_dict st') p) = Some (sha512_hexdigest H c)"
    using assms kp
    by (auto simp: visit_file_def Let_def calculate_file_hash_def update_conv'
             split: option.splits sum.splits if_splits)
  ultimately show ?thesis by (simp add: tracks_def)
qed

lemma visit_file_tracks:
  assumes "tracks H c p st" "read_file w p = Inr c" "visit_file H w q st = Inr st'"
  shows "tracks H c p st' \<and> silent_about p st st'"
proof -
  have keyed: "keyed_by_path (file_info_dict st)" using assms(1) by (simp add: tracks_def)
  have kq: "\<And>i. map_of (file_info_dict st) q = Some i \<Longrightarrow> e_path i = q"
    using keyed by (rule keyed_by_path_lookup)
  have stored: "map_option e_hash (map_of (file_info_dict st) p) = Some (sha512_hexdigest H c)"
    using assms(1) by (simp add: tracks_def)
  have keyed': "keyed_by_path (file_info_dict st')"
    using keyed assms(3) by (rule visit_file_keyed)
  show ?thesis
  proof (cases "q = p")
    case True
    have "st' = st"
      using assms(2,3) stored kq True
      by (auto simp: visit_file_def Let_def calculate_file_hash_def
               split: option.splits sum.splits if_splits)
    then show ?thesis using assms(1) by (simp add: silent_about_refl)
  next
    case False
    have st: "map_of (file_info_dict st') p = map_of (file_info_dict st) p"
      using assms(3) kq False
      by (auto simp: visit_file_def Let_def calculate_file_hash_def update_conv'
               split: option.splits sum.splits if_splits)
    obtain es where es: "log (process_file H w q (uuid4 w (uuid_count st)) (disk st)) = log (disk st) @ es"
      "\<forall>e \<in> set es. entry_path e = q"
      using process_file_log by blast
    have "silent_about p st st'"
      using assms(3) kq False es
      by (auto simp: visit_file_def Let_def calculate_file_hash_def silent_about_def logger_def
               split: option.splits sum.splits if_splits)
    then show ?thesis using st stored keyed' by (simp add: tracks_def)
  qed
qed

lemma delete_missing_dict:
  "file_info_dict (delete_missing w ks st) =
     filter (\<lambda>(k, i). k \<notin> set ks \<or> path_exists w k) (file_info_dict st)"
proof (induction ks arbitrary: st)
  case Nil
  then show ?case by simp
next
  case (Cons k ks)
  show ?case
    by (simp add: Cons.IH AList.delete_eq) (auto intro: filter_cong)
qed

lemma delete_missing_log:
  "log (disk (delete_missing w ks st)) =
     log (disk st) @ map (\<lambda>p. LogInfo 102 p ''File has been deleted'')
                        (filter (\<lambda>p. \<not> path_exists w p) ks)"
  by (induction ks arbitrary: st) (simp_all add: logger_def)

lemma delete_missing_baseline:
  "baseline_txt (disk (delete_missing w ks st)) = baseline_txt (disk st)"
  by (induction ks arbitrary: st) (simp_all add: logger_def)

lemma map_of_filter_keys:
  "P k \<Longrightarrow> map_of (filter (\<lambda>(k', i). P k') d) k = map_of d k"
  by (induction d) auto

lemma check_deleted_tracks:
  assumes "tracks H c p st" "path_exists w p"
  shows "tracks H c p (check_deleted w st) \<and> silent_about p st (check_deleted w st)"
proof -
  have d: "file_info_dict (check_deleted w st) =
      filter (\<lambda>(k, i). path_exists w k) (file_info_dict st)"
    unfolding check_deleted_def delete_missing_dict
    by (rule filter_cong) (auto intro: rev_image_eqI)
  have k: "keyed_by_path (file_info_dict (check_deleted w st))"
    using assms(1) by (auto simp: d tracks_def keyed_by_path_def)
  have m: "map_of (file_info_dict (check_deleted w st)) p = map_of (file_info_dict st) p"
    unfolding d using assms(2) by (rule map_of_filter_keys)
  have s: "silent_about p st (check_deleted w st)"
    unfolding silent_about_def check_deleted_def delete_missing_log
    using assms(2) by auto
  show ?thesis using k m s assms(1) by (simp add: tracks_def)
qed

lemma check_deleted_keyed:
  "keyed_by_path (file_info_dict st) \<Longrightarrow> keyed_by_path (file_info_dict (check_deleted w st))"
  unfolding check_deleted_def delete_missing_dict by (auto simp: keyed_by_path_def)

lemma visit_files_keyed:
  "keyed_by_path (file_info_dict st) \<Longrightarrow> visit_files H w root fs st = Inr st' \<Longrightarrow>
   keyed_by_path (file_info_dict st')"
proof (induction fs arbitrary: st)
  case Nil
  then show ?case by simp
next
  case (Cons f fs)
  from Cons.prems(2) obtain st1 where
    v: "visit_file H w (os_path_join root f) st = Inr st1" and r: "visit_files H w root fs st1 = Inr st'"
    by (auto split: sum.splits)
  from Cons.prems(1) v have "keyed_by_path (file_info_dict st1)" by (rule visit_file_keyed)
  then show ?case using r by (rule Cons.IH)
qed

lemma visit_files_tracks:
  "tracks H c p st \<Longrightarrow> read_file w p = Inr c \<Longrightarrow> visit_files H w root fs st = Inr st' \<Longrightarrow>
   tracks H c p st' \<and> silent_about p st st'"
proof (induction fs arbitrary: st)
  case Nil
  then show ?case by (simp add: silent_about_refl)
next
  case (Cons f fs)
  from Cons.prems(3) obtain st1 where
    v: "visit_file H w (os_path_join root f) st = Inr st1" and r: "visit_files H w root fs st1 = Inr st'"
    by (auto split: sum.splits)
  from visit_file_tracks[OF Cons.prems(1,2) v]
  have t1: "tracks H c p st1" and s1: "silent_about p st st1" by simp_all
  from Cons.IH[OF t1 Cons.prems(2) r] s1 show ?case
    by (auto intro: silent_about_trans)
qed

lemma visit_files_establish:
  "keyed_by_path (file_info_dict st) \<Longrightarrow> open_rb w p = None \<Longrightarrow> read_file w p = Inr c \<Longrightarrow>
   p \<in> set (step_paths (root, fs)) \<Longrightarrow> visit_files H w root fs st = Inr st' \<Longrightarrow>
   tracks H c p st'"
proof (induction fs arbitrary: st)
  case Nil
  then show ?case by (simp add: step_paths_def)
next
  case (Cons f fs)
  from Cons.prems(5) obtain st1 where
    v: "visit_file H w (os_path_join root f) st = Inr st1" and r: "visit_files H w root fs st1 = Inr st'"
    by (auto split: sum.splits)
  show ?case
  proof (cases "os_path_join root f = p")
    case True
    with v Cons.prems have "tracks H c p st1" by (auto intro: visit_file_establish)
    from visit_files_tracks[OF this Cons.prems(3) r] show ?thesis by simp
  next
    case False
    with Cons.prems(4) have "p \<in> set (step_paths (root, fs))" by (auto simp: step_paths_def)
    moreover from Cons.prems(1) v have "keyed_by_path (file_info_dict st1)" by (rule visit_file_keyed)
    ultimately show ?thesis using Cons.IH Cons.prems(2,3) r by blast
  qed
qed

lemma walk_step_keyed:
  "keyed_by_path (file_info_dict st) \<Longrightarrow> walk_step H w step st = Inr st' \<Longrightarrow>
   keyed_by_path (file_info_dict st')"
  by (auto simp: walk_step_def split: sum.splits dest: visit_files_keyed intro: check_deleted_keyed)

lemma walk_step_tracks:
  assumes "tracks H c p st" "read_file w p = Inr c" "path_exists w p"
    and "walk_step H w step st = Inr st'"
  shows "tracks H c p st' \<and> silent_about p st st'"
proof -
  from assms(4) obtain mid where
    v: "visit_files H w (fst step) (snd step) st = Inr mid" and s: "st' = check_deleted w mid"
    by (auto simp: walk_step_def split: sum.splits)
  from visit_files_tracks[OF assms(1,2) v]
  have t1: "tracks H c p mid" and s1: "silent_about p st mid" by simp_all
  from check_deleted_tracks[OF t1 assms(3)] s1 s show ?thesis
    by (auto intro: silent_about_trans)
qed

lemma walk_step_establish:
  assumes "keyed_by_path (file_info_dict st)" "open_rb w p = None" "read_file w p = Inr c"
    and "path_exists w p" "p \<in> set (step_paths step)" "walk_step H w step st = Inr st'"
  shows "tracks H c p st'"
proof -
  from assms(6) obtain mid where
    v: "visit_files H w (fst step) (snd step) st = Inr mid" and s: "st' = check_deleted w mid"
    by (auto simp: walk_step_def split: sum.splits)
  have "p \<in> set (step_paths (fst step, snd step))" using assms(5) by simp
  from visit_files_establish[OF assms(1,2,3) this v] have "tracks H c p mid" .
  from check_deleted_tracks[OF this assms(4)] s show ?thesis by simp
qed

lemma walk_steps_keyed:
  "keyed_by_path (file_info_dict st) \<Longrightarrow> walk_steps H w steps st = Inr st' \<Longrightarrow>
   keyed_by_path (file_info_dict st')"
proof (induction steps arbitrary: st)
  case Nil
  then show ?case by simp
next
  case (Cons step steps)
  from Cons.prems(2) obtain st1 where
    v: "walk_step H w step st = Inr st1" and r: "walk_steps H w steps st1 = Inr st'"
    by (auto split: sum.splits)
  from Cons.prems(1) v have "keyed_by_path (file_info_dict st1)" by (rule walk_step_keyed)
  then show ?case using r by (rule Cons.IH)
qed

lemma walk_steps_tracks:
  "tracks H c p st \<Longrightarrow> read_file w p = Inr c \<Longrightarrow> path_exists w p \<Longrightarrow>
   walk_steps H w steps st = Inr st' \<Longrightarrow> tracks H c p st' \<and> silent_about p st st'"
proof (induction steps arbitrary: st)
  case Nil
  then show ?case by (simp add: silent_about_refl)
next
  case (Cons step steps)
  from Cons.prems(4) obtain st1 where
    v: "walk_step H w step st = Inr st1" and r: "walk_steps H w steps st1 = Inr st'"
    by (auto split: sum.splits)
  from walk_step_tracks[OF Cons.prems(1,2,3) v]
  have t1: "tracks H c p st1" and s1: "silent_about p st st1" by simp_all
  from Cons.IH[OF t1 Cons.prems(2,3) r] s1 show ?case
    by (auto intro: silent_about_trans)
qed

lemma walk_steps_establish:
  "keyed_by_path (file_info_dict st) \<Longrightarrow> open_rb w p = None \<Longrightarrow> read_file w p = Inr c \<Longrightarrow>
   path_exists w p \<Longrightarrow> p \<in> set (concat (map step_paths steps)) \<Longrightarrow>
   walk_steps H w steps st = Inr st' \<Longrightarrow> tracks H c p st'"
proof (induction steps arbitrary: st)
  case Nil
  then show ?case by simp
next
  case (Cons step steps)
  from Cons.prems(6) obtain st1 where
    v: "walk_step H w step st = Inr st1" and r: "walk_steps H w steps st1 = Inr st'"
    by (auto split: sum.splits)
  show ?case
  proof (cases "p \<in> set (step_paths step)")
    case True
    from walk_step_establish[OF Cons.prems(1,2,3,4) True v] have "tracks H c p st1" .
    from walk_steps_tracks[OF this Cons.prems(3,4) r] show ?thesis by simp
  next
    case False
    with Cons.prems(5) have "p \<in> set (concat (map step_paths steps))" by simp
    moreover from Cons.prems(1) v have "keyed_by_path (file_info_dict st1)" by (rule walk_step_keyed)
    ultimately show ?thesis using Cons.IH Cons.prems(2,3,4) r by blast
  qed
qed


lemma monitor_cycle_tracks:
  "tracks H c p st \<Longrightarrow> read_file w p = Inr c \<Longrightarrow> path_exists w p \<Longrightarrow>
   monitor_cycle H w ts st = Inr st' \<Longrightarrow> tracks H c p st' \<and> silent_about p st st'"
proof (induction ts arbitrary: st)
  case Nil
  then show ?case by (simp add: silent_about_refl)
next
  case (Cons t ts)
  from Cons.prems(4) obtain st1 where
    v: "walk_steps H w (os_walk w t) st = Inr st1" and r: "monitor_cycle H w ts st1 = Inr st'"
    by (auto split: sum.splits)
  from walk_steps_tracks[OF Cons.prems(1,2,3) v]
  have t1: "tracks H c p st1" and s1: "silent_about p st st1" by simp_all
  from Cons.IH[OF t1 Cons.prems(2,3) r] s1 show ?case
    by (auto intro: silent_about_trans)
qed

lemma monitor_cycle_establish:
  "keyed_by_path (file_info_dict st) \<Longrightarrow> open_rb w p = None \<Longrightarrow> read_file w p = Inr c \<Longrightarrow>
   path_exists w p \<Longrightarrow> p \<in> set (cycle_paths w ts) \<Longrightarrow>
   monitor_cycle H w ts st = Inr st' \<Longrightarrow> tracks H c p st'"
proof (induction ts arbitrary: st)
  case Nil
  then show ?case by (simp add: cycle_paths_def)
next
  case (Cons t ts)
  from Cons.prems(6) obtain st1 where
    v: "walk_steps H w (os_walk w t) st = Inr st1" and r: "monitor_cycle H w ts st1 = Inr st'"
    by (auto split: sum.splits)
  show ?case
  proof (cases "p \<in> set (concat (map step_paths (os_walk w t)))")
    case True
    from walk_steps_establish[OF Cons.prems(1,2,3,4) True v] have "tracks H c p st1" .
    from monitor_cycle_tracks[OF this Cons.prems(3,4) r] show ?thesis by simp
  next
    case False
    with Cons.prems(5) have "p \<in> set (cycle_paths w ts)" by (simp add: cycle_paths_def)
    moreover from Cons.prems(1) v have "keyed_by_path (file_info_dict st1)" by (rule walk_steps_keyed)
    ultimately show ?thesis using Cons.IH Cons.prems(2,3,4) r by blast
  qed
qed

lemma load_file_info_dict_keyed: "keyed_by_path (load_file_info_dict ledger)"
proof (cases ledger)
  case None
  then show ?thesis by (simp add: load_file_info_dict_def keyed_by_path_def)
next
  case (Some content)
  have "keyed_by_path d \<Longrightarrow> keyed_by_path (fold load_step ls d)" for ls d
    by (induction ls arbitrary: d)
       (simp_all add: load_step_def keyed_by_path_update split: option.splits)
  moreover have "keyed_by_path []" by (simp add: keyed_by_path_def)
  ultimately show ?thesis using Some by (simp add: load_file_info_dict_def)
qed

subsection \<open>Evaluation on concrete inputs\<close>

lemmas ledger_eval =
  file_lines_def LF_def CR_def parse_line_def strip_def isspace_def load_step_def
  load_file_info_dict_def load_baseline_def load_baseline_rebinding_def
  save_baseline_def format_line_def

lemmas monitor_eval =
  monitor_init_def os_walk_def walk_step_def visit_file_def os_path_join_def
  excluded_dirs_def calculate_file_hash_def calculate_file_checksum_def logger_def
  check_deleted_def example_world_def vanishing_world_def tagged_digests_def
  step_paths_def cycle_paths_def cycle_steps_def example_state_def locked_world_def
  image_world_def

lemmas handler_eval =
  process_file_def process_changes_def process_file_changes_def process_image_changes_def
  process_excel_changes_def process_pdf_changes_def process_text_changes_def
  process_word_changes_def check_file_type_def endswith_def startswith_def has_handler_def

subsection \<open>Unchanged files\<close>

text \<open>
  C3, as stated, fails for a file that the first scan skips. \<^verbatim>\<open>/t/a.txt\<close> has the content
  \<^verbatim>\<open>hello\<close> in both scans, and the dictionary holds an older hash for it. In the first scan
  the file is in use (the probe raises \<^verbatim>\<open>PermissionError\<close>) and is skipped; the second scan
  reads it, logs a \<^verbatim>\<open>103\<close> record for it and replaces the stored hash.
\<close>

theorem locked_file_event_counterexample:
  "read_file locked_world ''/t/a.txt'' = Inr ''hello'' \<and> path_exists locked_world ''/t/a.txt'' \<and>
   read_file example_world ''/t/a.txt'' = Inr ''hello'' \<and> path_exists example_world ''/t/a.txt'' \<and>
   monitor_cycle tagged_digests locked_world [''/t'']
     (monitor_init (Some (''/t/a.txt|stale|e0'' @ [LF]))) =
   Inr \<lparr>file_info_dict =
          [(''/t/a.txt'', \<lparr>e_hash = ''stale'', e_event_id = ''e0'', e_path = ''/t/a.txt''\<rparr>),
           (''/t/sub/b.txt'',
            \<lparr>e_hash = ''sha512:hello'', e_event_id = ''uuid-'', e_path = ''/t/sub/b.txt''\<rparr>)],
        disk =
          \<lparr>baseline_txt = Some (''/t/a.txt|stale|e0'' @ [LF]),
           log = [LogInfo 101 ''/t/sub/b.txt'' ''New file detected.'']\<rparr>,
        uuid_count = 1\<rparr> \<and>
   monitor_cycle tagged_digests example_world [''/t'']
     \<lparr>file_info_dict =
          [(''/t/a.txt'', \<lparr>e_hash = ''stale'', e_event_id = ''e0'', e_path = ''/t/a.txt''\<rparr>),
           (''/t/sub/b.txt'',
            \<lparr>e_hash = ''sha512:hello'', e_event_id = ''uuid-'', e_path = ''/t/sub/b.txt''\<rparr>)],
        disk =
          \<lparr>baseline_txt = Some (''/t/a.txt|stale|e0'' @ [LF]),
           log = [LogInfo 101 ''/t/sub/b.txt'' ''New file detected.'']\<rparr>,
        uuid_count = 1\<rparr> =
   Inr \<lparr>file_info_dict =
          [(''/t/a.txt'',
            \<lparr>e_hash = ''sha512:hello'', e_event_id = ''uuid-i'', e_path = ''/t/a.txt''\<rparr>),
           (''/t/sub/b.txt'',
            \<lparr>e_hash = ''sha512:hello'', e_event_id = ''uuid-'', e_path = ''/t/sub/b.txt''\<rparr>)],
        disk =
          \<lparr>baseline_txt = Some (''/t/a.txt|stale|e0'' @ [LF]),
           log = [LogInfo 101 ''/t/sub/b.txt'' ''New file detected.'',
                  LogInfo 103 ''/t/a.txt'' ''File has been changed.'']\<rparr>,
        uuid_count = 2\<rparr>"
  by (simp add: ledger_eval monitor_eval handler_eval)

text \<open>
  C3 (amended): let the first of two consecutive scans list, open and read a file (it is
  not skipped as in use) with content \<open>c\<close>, the file existing then, and let the file exist
  with the same content \<open>c\<close> in the second scan. Then the second scan adds no log record
  about the file, and the fingerprint stored for it in \<^verbatim>\<open>file_info_dict\<close> is the same after
  both scans, namely the SHA-512 digest of \<open>c\<close>. The dictionary at the start is keyed by
  path, as the dictionary that \<^verbatim>\<open>monitor_files\<close> loads is (\<open>load_file_info_dict_keyed\<close>) and
  as every cycle leaves it (\<open>monitor_cycle_keyed\<close>).
\<close>

theorem unchanged_file_no_event:
  assumes "keyed_by_path (file_info_dict st0)"
    and "monitor_cycle H w1 target_folders st0 = Inr st1"
    and "monitor_cycle H w2 target_folders st1 = Inr st2"
    and "p \<in> set (cycle_paths w1 target_folders)"
    and "open_rb w1 p = None" and "read_file w1 p = Inr c" and "path_exists w1 p"
    and "read_file w2 p = Inr c" and "path_exists w2 p"
  shows "silent_about p st1 st2 \<and>
         map_option e_hash (map_of (file_info_dict st1) p) = Some (sha512_hexdigest H c) \<and>
         map_option e_hash (map_of (file_info_dict st2) p) = Some (sha512_hexdigest H c)"
proof -
  have t1: "tracks H c p st1"
    using assms(1,5,6,7,4,2) by (rule monitor_cycle_establish)
  from monitor_cycle_tracks[OF t1 assms(8,9,3)] t1 show ?thesis
    by (simp add: tracks_def)
qed

theorem unchanged_file_no_event_witness:
  "keyed_by_path (file_info_dict (monitor_init (Some []))) \<and>
   monitor_cycle tagged_digests example_world [''/t''] (monitor_init (Some [])) =
     Inr example_state \<and>
   monitor_cycle tagged_digests example_world [''/t''] example_state = Inr example_state \<and>
   silent_about ''/t/a.txt'' example_state example_state \<and>
   map_option e_hash (map_of (file_info_dict example_state) ''/t/a.txt'') =
     Some (sha512_hexdigest tagged_digests ''hello'')"
proof -
  have k: "keyed_by_path (file_info_dict (monitor_init (Some [])))"
    by (simp add: monitor_init_def load_file_info_dict_keyed)
  have c1: "monitor_cycle tagged_digests example_world [''/t''] (monitor_init (Some [])) =
      Inr example_state"
    by (simp add: ledger_eval monitor_eval)
  have c2: "monitor_cycle tagged_digests example_world [''/t''] example_state =
      Inr example_state"
    by (simp add: ledger_eval monitor_eval)
  have v: "''/t/a.txt'' \<in> set (cycle_paths example_world [''/t''])"
    by (simp add: monitor_eval)
  have w: "open_rb example_world ''/t/a.txt'' = None"
    "read_file example_world ''/t/a.txt'' = Inr ''hello''"
    "path_exists example_world ''/t/a.txt''"
    by (simp_all add: example_world_def)
  from unchanged_file_no_event [OF k c1 c2 v w w(2,3)] k c1 c2 show ?thesis by simp
qed

subsection \<open>The deletion pass\<close>

lemma visit_file_log_grows:
  "visit_file H w q st = Inr st' \<Longrightarrow> \<exists>es. log (disk st') = log (disk st) @ es"
  using process_file_log[of H w q "uuid4 w (uuid_count st)" "disk st"]
  by (auto simp: visit_file_def Let_def calculate_file_hash_def logger_def
           split: option.splits sum.splits if_splits)

lemma visit_files_log_grows:
  "visit_files H w root fs st = Inr st' \<Longrightarrow> \<exists>es. log (disk st') = log (disk st) @ es"
proof (induction fs arbitrary: st)
  case Nil
  then show ?case by simp
next
  case (Cons f fs)
  from Cons.prems obtain st1 where
    v: "visit_file H w (os_path_join root f) st = Inr st1" and r: "visit_files H w root fs st1 = Inr st'"
    by (auto split: sum.splits)
  from visit_file_log_grows[OF v] Cons.IH[OF r] show ?case by auto
qed

text \<open>
  C2, as stated, fails: the deletion loop runs after the files of each directory of the
  walk, not after the whole discovery. In the cycle below the ledger names a file that is
  gone; its \<^verbatim>\<open>102\<close> record is written after the directory \<^verbatim>\<open>/t\<close> and before the \<^verbatim>\<open>101\<close> record
  of the new file in \<^verbatim>\<open>/t/sub\<close>.
\<close>

theorem deletion_before_discovery_counterexample:
  "monitor_cycle tagged_digests example_world [''/t'']
     (monitor_init (Some (''/t/gone.txt|h|e'' @ [LF]))) =
   Inr \<lparr>file_info_dict =
          [(''/t/a.txt'',
            \<lparr>e_hash = ''sha512:hello'', e_event_id = ''uuid-'', e_path = ''/t/a.txt''\<rparr>),
           (''/t/sub/b.txt'',
            \<lparr>e_hash = ''sha512:hello'', e_event_id = ''uuid-i'',
               e_path = ''/t/sub/b.txt''\<rparr>)],
        disk =
          \<lparr>baseline_txt = Some (''/t/gone.txt|h|e'' @ [LF]),
           log =
             [LogInfo 101 ''/t/a.txt'' ''New file detected.'',
              LogInfo 102 ''/t/gone.txt'' ''File has been deleted'',
              LogInfo 101 ''/t/sub/b.txt'' ''New file detected.'']\<rparr>,
        uuid_count = 2\<rparr>"
  by (simp add: ledger_eval monitor_eval)

lemma walk_step_deletion_pass:
  "case walk_step H w step st of
     Inl e \<Rightarrow> visit_files H w (fst step) (snd step) st = Inl e
   | Inr st' \<Rightarrow>
       (\<exists>mid es.
          visit_files H w (fst step) (snd step) st = Inr mid \<and>
          log (disk mid) = log (disk st) @ es \<and>
          log (disk st') =
            log (disk mid) @
            map (\<lambda>p. LogInfo 102 p ''File has been deleted'')
                (filter (\<lambda>p. \<not> path_exists w p) (map fst (file_info_dict mid))) \<and>
          file_info_dict st' = filter (\<lambda>(p, i). path_exists w p) (file_info_dict mid))"
proof (cases "visit_files H w (fst step) (snd step) st")
  case (Inl e)
  then show ?thesis by (simp add: walk_step_def)
next
  case (Inr mid)
  from visit_files_log_grows[OF Inr] obtain es where
    es: "log (disk mid) = log (disk st) @ es" by blast
  have d: "file_info_dict (check_deleted w mid) =
      filter (\<lambda>(k, i). path_exists w k) (file_info_dict mid)"
    unfolding check_deleted_def delete_missing_dict
    by (rule filter_cong) (auto intro: rev_image_eqI)
  show ?thesis
    using Inr es d by (simp add: walk_step_def check_deleted_def delete_missing_log)
qed

lemma walk_steps_append:
  "walk_steps H w (xs @ ys) st =
     (case walk_steps H w xs st of Inl e \<Rightarrow> Inl e | Inr st1 \<Rightarrow> walk_steps H w ys st1)"
  by (induction xs arbitrary: st) (auto split: sum.splits)

lemma monitor_cycle_flat:
  "monitor_cycle H w target_folders st = walk_steps H w (cycle_steps w target_folders) st"
  by (induction target_folders arbitrary: st)
     (auto simp: cycle_steps_def walk_steps_append split: sum.splits)


lemma walk_steps_log_grows:
  "walk_steps H w steps st = Inr st' \<Longrightarrow> \<exists>es. log (disk st') = log (disk st) @ es"
proof (induction steps arbitrary: st)
  case Nil
  then show ?case by simp
next
  case (Cons step steps)
  from Cons.prems obtain mid where
    v: "visit_files H w (fst step) (snd step) st = Inr mid"
    and r: "walk_steps H w steps (check_deleted w mid) = Inr st'"
    by (auto simp: walk_step_def split: sum.splits)
  from visit_files_log_grows[OF v] Cons.IH[OF r] show ?case
    by (auto simp: check_deleted_def delete_missing_log)
qed

text \<open>
  C2 (amended): in every monitoring cycle a deletion pass runs at each step of the walk,
  after the files of that directory and before the directories walked later. For any
  step of a cycle that returns: the steps before it have run; the files of the step are
  processed, which only adds to the log; then one \<^verbatim>\<open>102\<close> record is written for each path
  that is in \<^verbatim>\<open>file_info_dict\<close> at that moment and for which \<^verbatim>\<open>os.path.exists\<close> is false, in
  the order of the dictionary, and exactly the records of these paths are removed; the
  later steps run from that state, and their records follow in the log.
\<close>

theorem monitor_cycle_deletion_passes:
  assumes "monitor_cycle H w target_folders st = Inr st'"
    and "cycle_steps w target_folders = pre @ step # post"
  shows "\<exists>a mid es later.
           walk_steps H w pre st = Inr a \<and>
           visit_files H w (fst step) (snd step) a = Inr mid \<and>
           log (disk mid) = log (disk a) @ es \<and>
           file_info_dict (check_deleted w mid) =
             filter (\<lambda>(p, i). path_exists w p) (file_info_dict mid) \<and>
           walk_steps H w post (check_deleted w mid) = Inr st' \<and>
           log (disk st') =
             log (disk mid) @
             map (\<lambda>p. LogInfo 102 p ''File has been deleted'')
                 (filter (\<lambda>p. \<not> path_exists w p) (map fst (file_info_dict mid))) @
             later"
proof -
  from assms have run: "walk_steps H w (pre @ step # post) st = Inr st'"
    by (simp add: monitor_cycle_flat)
  then obtain a where a: "walk_steps H w pre st = Inr a"
    and rest: "walk_steps H w (step # post) a = Inr st'"
    by (auto simp: walk_steps_append split: sum.splits)
  from rest obtain b where b: "walk_step H w step a = Inr b"
    and post: "walk_steps H w post b = Inr st'"
    by (auto split: sum.splits)
  from walk_step_deletion_pass[of H w step a] b obtain mid es where
    mid: "visit_files H w (fst step) (snd step) a = Inr mid"
    and es: "log (disk mid) = log (disk a) @ es"
    and lg: "log (disk b) = log (disk mid) @
        map (\<lambda>p. LogInfo 102 p ''File has been deleted'')
            (filter (\<lambda>p. \<not> path_exists w p) (map fst (file_info_dict mid)))"
    and dc: "file_info_dict b = filter (\<lambda>(p, i). path_exists w p) (file_info_dict mid)"
    by auto
  from b mid have bm: "b = check_deleted w mid" by (simp add: walk_step_def)
  from walk_steps_log_grows[OF post] obtain later where
    "log (disk st') = log (disk b) @ later" by blast
  with a mid es lg dc post bm show ?thesis by auto
qed

theorem monitor_cycle_deletion_passes_witness:
  "cycle_steps example_world [''/t''] =
     [] @ (''/t'', [''a.txt'']) # [(''/t/sub'', [''b.txt''])] \<and>
   (\<exists>st' mid later.
      monitor_cycle tagged_digests example_world [''/t'']
        (monitor_init (Some (''/t/gone.txt|h|e'' @ [LF]))) = Inr st' \<and>
      visit_files tagged_digests example_world ''/t'' [''a.txt'']
        (monitor_init (Some (''/t/gone.txt|h|e'' @ [LF]))) = Inr mid \<and>
      log (disk st') =
        log (disk mid) @ [LogInfo 102 ''/t/gone.txt'' ''File has been deleted''] @ later)"
proof -
  have s: "cycle_steps example_world [''/t''] =
      [] @ (''/t'', [''a.txt'']) # [(''/t/sub'', [''b.txt''])]"
    by (simp add: monitor_eval)
  obtain st' where c: "monitor_cycle tagged_digests example_world [''/t'']
      (monitor_init (Some (''/t/gone.txt|h|e'' @ [LF]))) = Inr st'"
    by (simp add: ledger_eval monitor_eval)
  from monitor_cycle_deletion_passes [OF c s] obtain a mid es later where
    a: "walk_steps tagged_digests example_world []
          (monitor_init (Some (''/t/gone.txt|h|e'' @ [LF]))) = Inr a"
    and m: "visit_files tagged_digests example_world
          (fst (''/t'', [''a.txt''])) (snd (''/t'', [''a.txt''])) a = Inr mid"
    and l: "log (disk st') =
          log (disk mid) @
          map (\<lambda>p. LogInfo 102 p ''File has been deleted'')
              (filter (\<lambda>p. \<not> path_exists example_world p) (map fst (file_info_dict mid))) @
          later"
    by blast
  from a m have m': "visit_files tagged_digests example_world ''/t'' [''a.txt'']
      (monitor_init (Some (''/t/gone.txt|h|e'' @ [LF]))) = Inr mid"
    by simp
  then have "map fst (file_info_dict mid) = [''/t/gone.txt'', ''/t/a.txt'']"
    by (auto simp: ledger_eval monitor_eval)
  with l have "log (disk st') =
      log (disk mid) @ [LogInfo 102 ''/t/gone.txt'' ''File has been deleted''] @ later"
    by (simp add: example_world_def)
  with s c m' show ?thesis by blast
qed

subsection \<open>The ledger during monitoring\<close>

lemma check_file_type_not_txt: "check_file_type p \<noteq> Some ''txt''"
  by (simp add: check_file_type_def)

lemma process_file_baseline:
  "\<not> has_handler p \<Longrightarrow> baseline_txt (process_file H w p eid s) = baseline_txt s"
  using check_file_type_not_txt[of p]
  by (simp add: has_handler_def process_file_def Let_def logger_def)

lemma visit_file_baseline:
  "\<not> has_handler p \<Longrightarrow> visit_file H w p st = Inr st' \<Longrightarrow>
   baseline_txt (disk st') = baseline_txt (disk st)"
  by (auto simp: visit_file_def Let_def calculate_file_hash_def logger_def process_file_baseline
           split: option.splits sum.splits if_splits)

lemma visit_files_baseline:
  "\<forall>p \<in> set (step_paths (root, fs)). \<not> has_handler p \<Longrightarrow> visit_files H w root fs st = Inr st' \<Longrightarrow>
   baseline_txt (disk st') = baseline_txt (disk st)"
proof (induction fs arbitrary: st)
  case Nil
  then show ?case by simp
next
  case (Cons f fs)
  from Cons.prems(2) obtain st1 where
    v: "visit_file H w (os_path_join root f) st = Inr st1" and r: "visit_files H w root fs st1 = Inr st'"
    by (auto split: sum.splits)
  from Cons.prems(1) have "\<not> has_handler (os_path_join root f)"
    and rest: "\<forall>p \<in> set (step_paths (root, fs)). \<not> has_handler p"
    by (simp_all add: step_paths_def)
  from visit_file_baseline[OF this(1) v] Cons.IH[OF rest r] show ?case by simp
qed

lemma walk_steps_baseline:
  "\<forall>p \<in> set (concat (map step_paths steps)). \<not> has_handler p \<Longrightarrow>
   walk_steps H w steps st = Inr st' \<Longrightarrow> baseline_txt (disk st') = baseline_txt (disk st)"
proof (induction steps arbitrary: st)
  case Nil
  then show ?case by simp
next
  case (Cons step steps)
  from Cons.prems(2) obtain mid where
    v: "visit_files H w (fst step) (snd step) st = Inr mid"
    and r: "walk_steps H w steps (check_deleted w mid) = Inr st'"
    by (auto simp: walk_step_def split: sum.splits)
  from Cons.prems(1) have "\<forall>p \<in> set (step_paths (fst step, snd step)). \<not> has_handler p"
    and rest: "\<forall>p \<in> set (concat (map step_paths steps)). \<not> has_handler p"
    by simp_all
  from visit_files_baseline[OF this(1) v] Cons.IH[OF rest r] show ?case
    by (simp add: check_deleted_def delete_missing_baseline)
qed

lemma monitor_cycle_baseline:
  "\<forall>p \<in> set (cycle_paths w ts). \<not> has_handler p \<Longrightarrow>
   monitor_cycle H w ts st = Inr st' \<Longrightarrow> baseline_txt (disk st') = baseline_txt (disk st)"
proof (induction ts arbitrary: st)
  case Nil
  then show ?case by simp
next
  case (Cons t ts)
  from Cons.prems(2) obtain st1 where
    v: "walk_steps H w (os_walk w t) st = Inr st1" and r: "monitor_cycle H w ts st1 = Inr st'"
    by (auto split: sum.splits)
  from Cons.prems(1) have "\<forall>p \<in> set (concat (map step_paths (os_walk w t))). \<not> has_handler p"
    and rest: "\<forall>p \<in> set (cycle_paths w ts). \<not> has_handler p"
    by (simp_all add: cycle_paths_def)
  from walk_steps_baseline[OF this(1) v] Cons.IH[OF rest r] show ?case by simp
qed


lemma monitor_loop_never_saves:
  "\<forall>w \<in> set ws. \<forall>p \<in> set (cycle_paths w target_folders). \<not> has_handler p \<Longrightarrow>
   monitor_loop H ws target_folders st = Inr st' \<Longrightarrow>
   baseline_txt (disk st') = baseline_txt (disk st)"
proof (induction ws arbitrary: st)
  case Nil
  then show ?case by simp
next
  case (Cons w ws)
  from Cons.prems(2) obtain st1 where
    v: "monitor_cycle H w target_folders st = Inr st1"
    and r: "monitor_loop H ws target_folders st1 = Inr st'"
    by (auto split: sum.splits)
  from Cons.prems(1) have "\<forall>p \<in> set (cycle_paths w target_folders). \<not> has_handler p"
    and rest: "\<forall>w \<in> set ws. \<forall>p \<in> set (cycle_paths w target_folders). \<not> has_handler p"
    by simp_all
  from monitor_cycle_baseline[OF this(1) v] Cons.IH[OF rest r] show ?case by simp
qed











subsection \<open>Errors in the monitoring loop\<close>








subsection \<open>The digests of the handlers\<close>

lemma process_changes_records:
  assumes "baseline_txt s = Some content" "dg f = Inr h" "open_w w = None"
  shows "ledger_records (process_changes dg a b c w f eid s) f h"
  using assms
  by (auto simp: ledger_records_def process_changes_def Let_def logger_def update_conv'
           split: prod.splits)

text \<open>
  C7, as stated, fails: \<^verbatim>\<open>process_excel_changes\<close> calls \<^verbatim>\<open>calculate_file_checksum\<close>, which
  is SHA-256, so the fingerprint it stores for a file is not the SHA-512 digest of the
  file's content.
\<close>

theorem excel_digest_counterexample:
  "process_excel_changes tagged_digests example_world ''/t/book.xlsx'' ''E2''
     \<lparr>baseline_txt = Some [], log = []\<rparr> =
   \<lparr>baseline_txt = Some (''/t/book.xlsx|sha256:hello|E2'' @ [LF]),
    log = [LogInfo 101 ''/t/book.xlsx'' ''New Excel file detected.'']\<rparr> \<and>
   sha512_hexdigest tagged_digests ''hello'' \<noteq> ''sha256:hello''"
  by (simp add: ledger_eval monitor_eval handler_eval)

text \<open>
  C7 (amended): two digests are in use. When the ledger can be read and written and the
  file can be read, \<^verbatim>\<open>process_file_changes\<close>, \<^verbatim>\<open>process_image_changes\<close>,
  \<^verbatim>\<open>process_pdf_changes\<close> and \<^verbatim>\<open>process_text_changes\<close> store the SHA-512 digest of the file's
  full content, \<^verbatim>\<open>process_word_changes\<close> does so for a file that exists and whose name does
  not start with \<^verbatim>\<open>~$\<close>, and \<^verbatim>\<open>process_excel_changes\<close> stores the SHA-256 digest.
\<close>

theorem handler_digests:
  assumes "baseline_txt s = Some content" "read_file w f = Inr data" "open_w w = None"
  shows "ledger_records (process_file_changes H w f eid s) f (sha512_hexdigest H data) \<and>
         ledger_records (process_image_changes H w f eid s) f (sha512_hexdigest H data) \<and>
         ledger_records (process_pdf_changes H w f eid s) f (sha512_hexdigest H data) \<and>
         ledger_records (process_text_changes H w f eid s) f (sha512_hexdigest H data) \<and>
         ledger_records (process_excel_changes H w f eid s) f (sha256_hexdigest H data) \<and>
         (path_exists w f \<and> \<not> startswith f ''~$'' \<longrightarrow>
            ledger_records (process_word_changes H w f eid s) f (sha512_hexdigest H data))"
proof -
  have h512: "calculate_file_hash H w f = Inr (sha512_hexdigest H data)"
    using assms(2) by (simp add: calculate_file_hash_def)
  have h256: "calculate_file_checksum H w f = Inr (sha256_hexdigest H data)"
    using assms(2) by (simp add: calculate_file_checksum_def)
  have word: "ledger_records (process_word_changes H w f eid s) f (sha512_hexdigest H data)"
    if "path_exists w f" "\<not> startswith f ''~$''"
    using that assms(1,3) h512
    by (auto simp: ledger_records_def process_word_changes_def Let_def logger_def update_conv'
             split: option.splits)
  show ?thesis
    unfolding process_file_changes_def process_image_changes_def process_pdf_changes_def
      process_text_changes_def process_excel_changes_def
    using process_changes_records[of s content "calculate_file_hash H w" f _ w, OF assms(1) h512 assms(3)]
      process_changes_records[of s content "calculate_file_checksum H w" f _ w, OF assms(1) h256 assms(3)]
      word
    by simp
qed

theorem handler_digests_witness:
  "ledger_records
     (process_image_changes tagged_digests example_world ''/t/p.png'' ''E2''
        \<lparr>baseline_txt = Some [], log = []\<rparr>)
     ''/t/p.png'' ''sha512:hello'' \<and>
   ledger_records
     (process_excel_changes tagged_digests example_world ''/t/p.png'' ''E2''
        \<lparr>baseline_txt = Some [], log = []\<rparr>)
     ''/t/p.png'' ''sha256:hello'' \<and>
   ledger_records
     (process_word_changes tagged_digests example_world ''/t/p.png'' ''E2''
        \<lparr>baseline_txt = Some [], log = []\<rparr>)
     ''/t/p.png'' ''sha512:hello''"
  using handler_digests
    [of "\<lparr>baseline_txt = Some [], log = []\<rparr>" "[]" example_world "''/t/p.png''" "''hello''"
        tagged_digests "''E2''"]
  by (simp add: example_world_def tagged_digests_def startswith_def)

subsection \<open>The event id stored by a handler\<close>

text \<open>
  C10: \<^verbatim>\<open>process_file_changes\<close> is called for \<^verbatim>\<open>/t/b.txt\<close> with the event id \<^verbatim>\<open>E2\<close> while the
  ledger holds one line, for \<^verbatim>\<open>/t/a.txt\<close> with the event id \<^verbatim>\<open>E1\<close>. The handler rewrites the
  whole ledger, and the record it stores for \<^verbatim>\<open>/t/b.txt\<close> carries \<^verbatim>\<open>E1\<close>, the event id of the
  last line read, not the argument \<^verbatim>\<open>E2\<close>: the load loop assigns to the parameter.
\<close>

theorem process_file_changes_event_id:
  "process_file_changes tagged_digests example_world ''/t/b.txt'' ''E2''
     \<lparr>baseline_txt = Some (''/t/a.txt|h1|E1'' @ [LF]), log = []\<rparr> =
   \<lparr>baseline_txt = Some (''/t/a.txt|h1|E1'' @ [LF] @ ''/t/b.txt|sha512:hello|E1'' @ [LF]),
    log = [LogInfo 101 ''/t/b.txt'' ''New file detected.'']\<rparr>"
  by (simp add: ledger_eval monitor_eval handler_eval)

subsection \<open>The ledger round trip\<close>

lemma readlines_line:
  "LF \<notin> set l \<Longrightarrow> CR \<notin> set l \<Longrightarrow>
   readlines cur False (l @ LF # rest) = (cur @ l @ [LF]) # readlines [] False rest"
  by (induction l arbitrary: cur) auto

lemma readlines_concat:
  "\<forall>l \<in> set ls. LF \<notin> set l \<and> CR \<notin> set l \<Longrightarrow>
   readlines [] False (concat (map (\<lambda>l. l @ [LF]) ls)) = map (\<lambda>l. l @ [LF]) ls"
  by (induction ls) (simp_all add: readlines_line)

lemma isspace_LF: "isspace LF"
  by (simp add: isspace_def LF_def)

lemma not_isspace_bar: "\<not> isspace (CHR ''|'')"
  by (simp add: isspace_def)

lemma strip_line:
  assumes "l \<noteq> []" "\<not> isspace (hd l)" "\<not> isspace (last l)"
  shows "strip (l @ [LF]) = l"
proof -
  from assms(1,2) have a: "dropWhile isspace (l @ [LF]) = l @ [LF]"
    by (cases l) auto
  from assms(1,3) have b: "dropWhile isspace (rev l) = rev l"
    by (cases "rev l") (auto simp: last_rev[symmetric] hd_rev)
  show ?thesis by (simp add: strip_def a b isspace_LF)
qed

lemma split_on_plain: "sep \<notin> set a \<Longrightarrow> split_on sep a = [a]"
  by (induction a) auto

lemma split_on_field: "sep \<notin> set a \<Longrightarrow> split_on sep (a @ sep # rest) = a # split_on sep rest"
  by (induction a) auto

lemma parse_format_line:
  assumes "CHR ''|'' \<notin> set p" "CHR ''|'' \<notin> set h" "CHR ''|'' \<notin> set e"
    and "p = [] \<or> \<not> isspace (hd p)" "e = [] \<or> \<not> isspace (last e)"
  shows "parse_line (format_line p h e) = Some (p, h, e)"
proof -
  define l where "l = p @ CHR ''|'' # h @ CHR ''|'' # e"
  have f: "format_line p h e = l @ [LF]" by (simp add: format_line_def l_def)
  have "l \<noteq> []" by (simp add: l_def)
  moreover have "\<not> isspace (hd l)"
    using assms(4) by (cases p) (auto simp: l_def not_isspace_bar)
  moreover have "\<not> isspace (last l)"
    using assms(5) by (cases "e = []") (auto simp: l_def not_isspace_bar)
  ultimately have s: "strip (l @ [LF]) = l" by (rule strip_line)
  have "split_on (CHR ''|'') l = [p, h, e]"
    unfolding l_def using assms(1,2,3) by (simp add: split_on_field split_on_plain)
  then show ?thesis by (simp add: parse_line_def f s)
qed

lemma update_fresh: "k \<notin> fst ` set al \<Longrightarrow> AList.update k v al = al @ [(k, v)]"
  by (induction al) auto

lemma fold_update_distinct:
  "distinct (map fst (acc @ xs)) \<Longrightarrow>
   fold (\<lambda>(k, v) d. AList.update k v d) xs acc = acc @ xs"
proof (induction xs arbitrary: acc)
  case Nil
  then show ?case by simp
next
  case (Cons x xs)
  obtain k v where x: "x = (k, v)" by (cases x)
  from Cons.prems have fresh: "k \<notin> fst ` set acc" by (auto simp: x)
  from Cons.prems have "distinct (map fst ((acc @ [(k, v)]) @ xs))" by (simp add: x)
  from Cons.IH[OF this] show ?case by (simp add: x update_fresh[OF fresh])
qed

text \<open>
  C5, as stated, fails: a path that contains the separator is cut at it, and the fields
  shift. Saving the record of \<^verbatim>\<open>C:/a|b.txt\<close> and loading it back gives a record of \<^verbatim>\<open>C:/a\<close>.
\<close>

theorem ledger_roundtrip_counterexample:
  "load_baseline (save_baseline [(''C:/a|b.txt'', \<lparr>e_hash = ''h'', e_event_id = ''e''\<rparr>)]) =
   [(''C:/a'', \<lparr>e_hash = ''b.txt'', e_event_id = ''h''\<rparr>)]"
  by (simp add: ledger_eval)

text \<open>
  C5 (amended): for every record set with distinct paths in which no path, hash or event
  id contains \<^verbatim>\<open>|\<close> or a line end, no path begins with white space and no event id ends
  with white space, saving the set to the ledger and loading it back reproduces the set,
  in the same order.
\<close>

theorem ledger_roundtrip:
  assumes "roundtrip_safe R"
  shows "load_baseline (save_baseline R) = R"
proof -
  define body :: "string \<times> baseline_entry \<Rightarrow> string"
    where "body = (\<lambda>(p, i). p @ CHR ''|'' # e_hash i @ CHR ''|'' # e_event_id i)"
  define step where "step = (\<lambda>line d. case parse_line line of
                       None \<Rightarrow> d
                     | Some (p, h, e) \<Rightarrow> AList.update p \<lparr>e_hash = h, e_event_id = e\<rparr> d)"
  have ok: "plain_field p \<and> plain_field (e_hash i) \<and> plain_field (e_event_id i) \<and>
        (p = [] \<or> \<not> isspace (hd p)) \<and> (e_event_id i = [] \<or> \<not> isspace (last (e_event_id i)))"
    if "(p, i) \<in> set R" for p i
    using assms that by (auto simp: roundtrip_safe_def)
  have sv: "save_baseline R = concat (map (\<lambda>l. l @ [LF]) (map body R))"
    by (auto simp: save_baseline_def format_line_def body_def intro!: arg_cong[where f=concat])
  have "\<forall>l \<in> set (map body R). LF \<notin> set l \<and> CR \<notin> set l"
  proof
    fix l assume "l \<in> set (map body R)"
    then obtain p i where pi: "(p, i) \<in> set R" and l: "l = body (p, i)" by auto
    from ok[OF pi] show "LF \<notin> set l \<and> CR \<notin> set l"
      by (auto simp: l body_def plain_field_def LF_def CR_def)
  qed
  then have lines: "file_lines (save_baseline R) = map (\<lambda>l. l @ [LF]) (map body R)"
    unfolding file_lines_def sv by (rule readlines_concat)
  have st: "step (body x @ [LF]) d = (\<lambda>(k, v) d. AList.update k v d) x d" if "x \<in> set R" for x d
  proof -
    obtain p i where x: "x = (p, i)" by (cases x)
    from ok[of p i] that x have
      "parse_line (format_line p (e_hash i) (e_event_id i)) = Some (p, e_hash i, e_event_id i)"
      by (intro parse_format_line) (auto simp: plain_field_def)
    moreover have eq: "\<lparr>e_hash = e_hash i, e_event_id = e_event_id i\<rparr> = i" by (cases i) simp
    ultimately have "step (format_line p (e_hash i) (e_event_id i)) d = AList.update p i d"
      by (simp only: step_def option.case prod.case eq)
    then show ?thesis by (simp add: x body_def format_line_def)
  qed
  have "load_baseline (save_baseline R) = fold step (map (\<lambda>l. l @ [LF]) (map body R)) []"
    by (simp add: load_baseline_def lines step_def)
  also have "\<dots> = fold (\<lambda>x. step (body x @ [LF])) R []"
    by (simp add: fold_map comp_def)
  also have "\<dots> = fold (\<lambda>(k, v) d. AList.update k v d) R []"
    by (rule fold_cong) (auto simp: st)
  also have "\<dots> = [] @ R"
    using assms by (intro fold_update_distinct) (simp add: roundtrip_safe_def)
  finally show ?thesis by simp
qed

theorem ledger_roundtrip_witness:
  "roundtrip_safe
     [(''/t/a.txt'', \<lparr>e_hash = ''h1'', e_event_id = ''E1''\<rparr>),
      (''/t/b b.txt'', \<lparr>e_hash = ''h2'', e_event_id = []\<rparr>)] \<and>
   load_baseline (save_baseline
     [(''/t/a.txt'', \<lparr>e_hash = ''h1'', e_event_id = ''E1''\<rparr>),
      (''/t/b b.txt'', \<lparr>e_hash = ''h2'', e_event_id = []\<rparr>)]) =
     [(''/t/a.txt'', \<lparr>e_hash = ''h1'', e_event_id = ''E1''\<rparr>),
      (''/t/b b.txt'', \<lparr>e_hash = ''h2'', e_event_id = []\<rparr>)]"
proof -
  have s: "roundtrip_safe
     [(''/t/a.txt'', \<lparr>e_hash = ''h1'', e_event_id = ''E1''\<rparr>),
      (''/t/b b.txt'', \<lparr>e_hash = ''h2'', e_event_id = []\<rparr>)]"
    by (simp add: roundtrip_safe_def plain_field_def isspace_def LF_def CR_def)
  from ledger_roundtrip [OF s] s show ?thesis by simp
qed

subsection \<open>Loading the ledger\<close>

lemma load_fold_keys:
  "fst ` set (fold load_step ls d) =
     fst ` set d \<union> {p. \<exists>line \<in> set ls. \<exists>h e. parse_line line = Some (p, h, e)}"
proof (induction ls arbitrary: d)
  case Nil
  then show ?case by simp
next
  case (Cons l ls)
  have "fst ` set (load_step l d) =
          fst ` set d \<union> {p. \<exists>h e. parse_line l = Some (p, h, e)}"
  proof (cases "parse_line l")
    case None
    then show ?thesis by (simp add: load_step_def)
  next
    case (Some t)
    obtain p h e where t: "t = (p, h, e)" by (cases t)
    show ?thesis by (simp add: load_step_def Some t dom_update)
  qed
  then show ?case by (auto simp: Cons.IH)
qed

lemma load_fold_values:
  "map_of (fold load_step ls d) p = Some i \<Longrightarrow>
   map_of d p = Some i \<or>
   (\<exists>line \<in> set ls. parse_line line = Some (p, e_hash i, e_event_id i) \<and> e_path i = p)"
proof (induction ls arbitrary: d)
  case Nil
  then show ?case by simp
next
  case (Cons l ls)
  from Cons.IH[of "load_step l d"] Cons.prems
  consider "map_of (load_step l d) p = Some i"
    | "\<exists>line \<in> set ls. parse_line line = Some (p, e_hash i, e_event_id i) \<and> e_path i = p"
    by auto
  then show ?case
  proof cases
    case 1
    then show ?thesis
      by (cases "parse_line l") (auto simp: load_step_def update_conv' split: if_splits)
  next
    case 2
    then show ?thesis by auto
  qed
qed

lemma parse_line_Some:
  "parse_line line = Some (p, h, e) \<longleftrightarrow>
     (length (split_on (CHR ''|'') (strip line)) \<ge> 3 \<and>
      p = split_on (CHR ''|'') (strip line) ! 0 \<and>
      h = split_on (CHR ''|'') (strip line) ! 1 \<and>
      e = split_on (CHR ''|'') (strip line) ! 2)"
  by (auto simp: parse_line_def Let_def)

text \<open>
  C6, as stated, fails: a line of four fields does not make the load fail; its first three
  fields are taken. (A line of fewer than three fields is passed over.)
\<close>

theorem load_four_fields_counterexample:
  "load_file_info_dict (Some (''/t/a.txt|h1|E1|extra'' @ [LF] @ ''broken line'' @ [LF])) =
   [(''/t/a.txt'', \<lparr>e_hash = ''h1'', e_event_id = ''E1'', e_path = ''/t/a.txt''\<rparr>)]"
  by (simp add: ledger_eval)

text \<open>
  C6 (amended): loading the ledger never fails for the shape of a line. A ledger that
  cannot be opened gives the empty dictionary. Every record loaded comes from a line that
  splits into three or more fields, of which the first three are the path, the hash and the
  event id, and every such line makes its first field a key of the dictionary; lines of
  fewer than three fields contribute nothing.
\<close>

theorem load_file_info_dict_accepts:
  "load_file_info_dict None = [] \<and>
   (\<forall>p i. map_of (load_file_info_dict (Some content)) p = Some i \<longrightarrow>
      (\<exists>line \<in> set (file_lines content).
         length (split_on (CHR ''|'') (strip line)) \<ge> 3 \<and>
         p = split_on (CHR ''|'') (strip line) ! 0 \<and>
         e_hash i = split_on (CHR ''|'') (strip line) ! 1 \<and>
         e_event_id i = split_on (CHR ''|'') (strip line) ! 2 \<and>
         e_path i = p)) \<and>
   (\<forall>line \<in> set (file_lines content).
      length (split_on (CHR ''|'') (strip line)) \<ge> 3 \<longrightarrow>
      split_on (CHR ''|'') (strip line) ! 0 \<in> fst ` set (load_file_info_dict (Some content)))"
proof -
  have l: "load_file_info_dict (Some content) = fold load_step (file_lines content) []"
    by (simp add: load_file_info_dict_def)
  have a: "load_file_info_dict None = []" by (simp add: load_file_info_dict_def)
  have b: "\<exists>line \<in> set (file_lines content).
         length (split_on (CHR ''|'') (strip line)) \<ge> 3 \<and>
         p = split_on (CHR ''|'') (strip line) ! 0 \<and>
         e_hash i = split_on (CHR ''|'') (strip line) ! 1 \<and>
         e_event_id i = split_on (CHR ''|'') (strip line) ! 2 \<and>
         e_path i = p"
    if "map_of (load_file_info_dict (Some content)) p = Some i" for p i
    using load_fold_values[of "file_lines content" "[]" p i] that
    by (auto simp: l parse_line_Some)
  have c: "split_on (CHR ''|'') (strip line) ! 0 \<in> fst ` set (load_file_info_dict (Some content))"
    if "line \<in> set (file_lines content)" "length (split_on (CHR ''|'') (strip line)) \<ge> 3" for line
  proof -
    from that(2) have "parse_line line = Some (split_on (CHR ''|'') (strip line) ! 0,
        split_on (CHR ''|'') (strip line) ! 1, split_on (CHR ''|'') (strip line) ! 2)"
      by (simp add: parse_line_Some)
    with that(1) show ?thesis unfolding l load_fold_keys by blast
  qed
  from a b c show ?thesis by blast
qed

theorem load_file_info_dict_accepts_witness:
  "file_lines (''/t/a.txt|h1|E1|extra'' @ [LF] @ ''broken line'' @ [LF]) =
     [''/t/a.txt|h1|E1|extra'' @ [LF], ''broken line'' @ [LF]] \<and>
   length (split_on (CHR ''|'') (strip (''/t/a.txt|h1|E1|extra'' @ [LF]))) = 4 \<and>
   ''/t/a.txt'' \<in> fst ` set (load_file_info_dict
      (Some (''/t/a.txt|h1|E1|extra'' @ [LF] @ ''broken line'' @ [LF])))"
  using load_file_info_dict_accepts
    [of "''/t/a.txt|h1|E1|extra'' @ [LF] @ ''broken line'' @ [LF]"]
  by (simp add: ledger_eval)

end
